theory Spec2Isabelle
  imports Main "HOL-Library.Sublist"
begin

section \<open>Python values and errors\<close>

text \<open>
  The two source files are Python 2 modules. Python integers are unbounded and are
  modelled as \<^typ>\<open>int\<close>; a value that may be \<open>None\<close> is an \<open>option\<close>; a
  Python string is a \<^typ>\<open>string\<close>. Every \<open>raise\<close> of the source is a value of
  the type \<open>py_error\<close>, returned as \<open>Inl\<close>.
\<close>

datatype py_error =
    IndexError
  | RepeatedMeasuresFormat
  | NotRepeatedMeasuresFormat
  | NoDerivatives
  | MissingParameterFile string
  | NameError string

section \<open>Functional preprocessing: \<open>get_idx\<close>\<close>

text \<open>
  \<open>get_idx(in_files, stop_idx, start_idx)\<close> of \<open>func_preproc.py\<close> loads the image,
  reads \<open>nvols = int(hdr.get_data_shape()[3])\<close> and resolves the two indices. Loading
  the file is the work of an external library: the model takes the data shape of the
  loaded header as its first argument. Indexing a shape of fewer than four dimensions at
  \<open>[3]\<close> raises \<open>IndexError\<close> in Python. The function returns the pair
  \<open>(stopidx, startidx)\<close>, in this order.
\<close>

definition get_idx :: "int list \<Rightarrow> int option \<Rightarrow> int option \<Rightarrow> py_error + (int \<times> int)" where
  "get_idx data_shape stop_idx start_idx =
     (if length data_shape \<le> 3 then Inl IndexError
      else
        let nvols = data_shape ! 3;
            startidx =
              (case start_idx of
                 None \<Rightarrow> 0
               | Some s \<Rightarrow> if s < 0 \<or> s > nvols - 1 then 0 else s);
            stopidx =
              (case stop_idx of
                 None \<Rightarrow> nvols - 1
               | Some e \<Rightarrow> if e > nvols - 1 then nvols - 1 else e)
        in Inr (stopidx, startidx))"

section \<open>Functional preprocessing: the workflow graph\<close>

text \<open>
  \<open>create_func_preproc\<close> builds a workflow: it creates the nodes below, each one
  around an interface, and connects an output of one node to an input of another with
  \<open>preproc.connect(source, output, destination, input)\<close>. The node
  \<open>func_get_mean_motion\<close> is a clone of \<open>func_get_mean_RPI\<close> and
  \<open>func_motion_correct_A\<close> is a clone of \<open>func_motion_correct\<close>: a clone has the
  interface of the node it copies.
\<close>

datatype node =
    inputNode
  | outputNode
  | func_get_idx
  | func_drop_trs
  | func_deoblique
  | func_reorient
  | func_get_mean_RPI
  | func_get_mean_motion
  | func_motion_correct
  | func_motion_correct_A
  | func_get_dilate_mask
  | func_edge_detect
  | func_mean_skullstrip
  | func_normalize
  | func_mask_normalize

datatype interface =
    IdentityInterface
  | FunctionInterface
  | Threedcalc
  | Threedrefit
  | Resample
  | TStat
  | Threedvolreg
  | ThreedAutomask
  | ImageMaths

fun interface_of :: "node \<Rightarrow> interface" where
  "interface_of inputNode = IdentityInterface"
| "interface_of outputNode = IdentityInterface"
| "interface_of func_get_idx = FunctionInterface"
| "interface_of func_drop_trs = Threedcalc"
| "interface_of func_deoblique = Threedrefit"
| "interface_of func_reorient = Resample"
| "interface_of func_get_mean_RPI = TStat"
| "interface_of func_get_mean_motion = TStat"
| "interface_of func_motion_correct = Threedvolreg"
| "interface_of func_motion_correct_A = Threedvolreg"
| "interface_of func_get_dilate_mask = ThreedAutomask"
| "interface_of func_edge_detect = Threedcalc"
| "interface_of func_mean_skullstrip = TStat"
| "interface_of func_normalize = ImageMaths"
| "interface_of func_mask_normalize = ImageMaths"

definition workflow_nodes :: "node list" where
  "workflow_nodes =
     [inputNode, outputNode, func_get_idx, func_drop_trs, func_deoblique, func_reorient,
      func_get_mean_RPI, func_get_mean_motion, func_motion_correct, func_motion_correct_A,
      func_get_dilate_mask, func_edge_detect, func_mean_skullstrip, func_normalize,
      func_mask_normalize]"

text \<open>The calls of \<open>preproc.connect\<close>, lines 286 to 351, in the order of the source.\<close>

definition connections :: "(node \<times> string \<times> node \<times> string) list" where
  "connections =
     [(inputNode, ''rest'', func_get_idx, ''in_files''),
      (inputNode, ''start_idx'', func_get_idx, ''start_idx''),
      (inputNode, ''stop_idx'', func_get_idx, ''stop_idx''),
      (inputNode, ''rest'', func_drop_trs, ''infile_a''),
      (func_get_idx, ''startidx'', func_drop_trs, ''start_idx''),
      (func_get_idx, ''stopidx'', func_drop_trs, ''stop_idx''),
      (func_drop_trs, ''out_file'', func_deoblique, ''in_file''),
      (func_deoblique, ''out_file'', func_reorient, ''in_file''),
      (func_reorient, ''out_file'', func_get_mean_RPI, ''in_file''),
      (func_reorient, ''out_file'', func_motion_correct, ''in_file''),
      (func_get_mean_RPI, ''out_file'', func_motion_correct, ''basefile''),
      (func_motion_correct, ''out_file'', func_get_mean_motion, ''in_file''),
      (func_reorient, ''out_file'', func_motion_correct_A, ''in_file''),
      (func_get_mean_motion, ''out_file'', func_motion_correct_A, ''basefile''),
      (func_motion_correct_A, ''out_file'', func_get_dilate_mask, ''in_file''),
      (func_motion_correct_A, ''out_file'', func_edge_detect, ''infile_a''),
      (func_get_dilate_mask, ''out_file'', func_edge_detect, ''infile_b''),
      (func_edge_detect, ''out_file'', func_mean_skullstrip, ''in_file''),
      (func_edge_detect, ''out_file'', func_normalize, ''in_file''),
      (func_normalize, ''out_file'', func_mask_normalize, ''in_file''),
      (func_drop_trs, ''out_file'', outputNode, ''drop_tr''),
      (func_deoblique, ''out_file'', outputNode, ''refit''),
      (func_reorient, ''out_file'', outputNode, ''reorient''),
      (func_get_mean_motion, ''out_file'', outputNode, ''motion_correct_ref''),
      (func_motion_correct_A, ''out_file'', outputNode, ''motion_correct''),
      (func_motion_correct_A, ''md1d_file'', outputNode, ''max_displacement''),
      (func_motion_correct_A, ''oned_file'', outputNode, ''movement_parameters''),
      (func_get_dilate_mask, ''out_file'', outputNode, ''mask''),
      (func_edge_detect, ''out_file'', outputNode, ''skullstrip''),
      (func_mean_skullstrip, ''out_file'', outputNode, ''example_func''),
      (func_normalize, ''out_file'', outputNode, ''preprocessed''),
      (func_mask_normalize, ''out_file'', outputNode, ''preprocessed_mask'')]"

text \<open>
  The outputs connected to an input of a node, and the nodes a node reads from. A run
  order of the workflow gives every node a position; the engine runs a node after every
  node it reads from.
\<close>

definition sources_of :: "node \<Rightarrow> string \<Rightarrow> (node \<times> string) list" where
  "sources_of n input =
     map (\<lambda>(a, out, b, inp). (a, out))
       (filter (\<lambda>(a, out, b, inp). b = n \<and> inp = input) connections)"

definition run_order :: "(node \<Rightarrow> nat) \<Rightarrow> bool" where
  "run_order pos = list_all (\<lambda>(a, out, b, inp). pos a < pos b) connections"

text \<open>
  One run order of the workflow: the order in which the source creates and connects its
  steps, the output node last.
\<close>

fun run_position :: "node \<Rightarrow> nat" where
  "run_position inputNode = 0"
| "run_position func_get_idx = 1"
| "run_position func_drop_trs = 2"
| "run_position func_deoblique = 3"
| "run_position func_reorient = 4"
| "run_position func_get_mean_RPI = 5"
| "run_position func_motion_correct = 6"
| "run_position func_get_mean_motion = 7"
| "run_position func_motion_correct_A = 8"
| "run_position func_get_dilate_mask = 9"
| "run_position func_edge_detect = 10"
| "run_position func_mean_skullstrip = 11"
| "run_position func_normalize = 12"
| "run_position func_mask_normalize = 13"
| "run_position outputNode = 14"

section \<open>Python strings\<close>

text \<open>
  The string operations the driver uses, each with the meaning of the Python 2 built-in:
  \<open>a in b\<close> on strings is containment of \<open>a\<close> as a contiguous substring,
  \<open>s.startswith(p)\<close> is the prefix test, \<open>s.rstrip(c)\<close> removes every trailing
  \<open>c\<close>, \<open>s.count(c)\<close> counts the occurrences of a character and
  \<open>s.split(sep, n)\<close> splits at the first \<open>n\<close> separators at most.
\<close>

definition newline :: char where
  "newline = CHR 0x0A"

definition comma :: char where
  "comma = CHR '',''"

definition slash :: char where
  "slash = CHR ''/''"

definition py_in :: "string \<Rightarrow> string \<Rightarrow> bool" where
  "py_in sub s = sublist sub s"

definition startswith :: "string \<Rightarrow> string \<Rightarrow> bool" where
  "startswith s p = prefix p s"

definition rstrip :: "char \<Rightarrow> string \<Rightarrow> string" where
  "rstrip c s = rev (dropWhile (\<lambda>x. x = c) (rev s))"

fun split_max :: "char \<Rightarrow> nat \<Rightarrow> string \<Rightarrow> string list" where
  "split_max sep 0 s = [s]"
| "split_max sep (Suc n) s =
     (case dropWhile (\<lambda>x. x \<noteq> sep) s of
        [] \<Rightarrow> [s]
      | _ # rest \<Rightarrow> takeWhile (\<lambda>x. x \<noteq> sep) s # split_max sep n rest)"

text \<open>
  \<open>f.readlines()\<close> cuts the text of a file after every newline and keeps the newline
  at the end of each line; a last line without a newline is returned as it is, and a text
  that ends with a newline has no empty last line.
\<close>

fun readlines_from :: "string \<Rightarrow> string \<Rightarrow> string list" where
  "readlines_from cur [] = (if cur = [] then [] else [cur])"
| "readlines_from cur (c # cs) =
     (if c = newline then (cur @ [c]) # readlines_from [] cs
      else readlines_from (cur @ [c]) cs)"

definition readlines :: "string \<Rightarrow> string list" where
  "readlines text = readlines_from [] text"

section \<open>Group analysis driver: \<open>prep_group_analysis_workflow\<close>\<close>

text \<open>
  The driver is one long function. The model follows its steps one by one, each step a
  function of the values the step reads: the parsing of the subject list, the loop over
  the subject list, the resolution of the motion parameter file and the path rewrites
  given to the data sink. What the steps take from
  the file system and from the configuration objects is an argument of the model.
\<close>

subsection \<open>Parsing the group subject list\<close>

text \<open>
  Lines 47 to 50 of \<open>cpac_ga_model_generator.py\<close>:
  \<^verbatim>\<open>group_sublist = [line.rstrip('\n') for line in group_sublist_items
                   if not (line == '\n') and not line.startswith('#')]\<close>
\<close>

definition group_sublist :: "string list \<Rightarrow> string list" where
  "group_sublist group_sublist_items =
     [rstrip newline line. line \<leftarrow> group_sublist_items,
        \<not> (line = [newline]) \<and> \<not> startswith line ''#'']"

text \<open>
  The lines of a text: the text cut at its newlines, the newlines removed.
\<close>

fun text_lines_from :: "string \<Rightarrow> string \<Rightarrow> string list" where
  "text_lines_from cur [] = [cur]"
| "text_lines_from cur (c # cs) =
     (if c = newline then cur # text_lines_from [] cs
      else text_lines_from (cur @ [c]) cs)"

text \<open>
  What the specification says of the same step, in its own words: the lines of the file
  without the blank lines and without the lines that start with \<open>#\<close>, in the order of
  the file. A blank line has no character but white space: space, tab, line feed,
  vertical tab, form feed, carriage return.
\<close>

definition whitespace :: "char list" where
  "whitespace = [CHR '' '', CHR 0x09, CHR 0x0A, CHR 0x0B, CHR 0x0C, CHR 0x0D]"

definition blank :: "string \<Rightarrow> bool" where
  "blank l = list_all (\<lambda>c. c \<in> set whitespace) l"

definition spec_subject_entries :: "string \<Rightarrow> string list" where
  "spec_subject_entries text =
     filter (\<lambda>l. \<not> blank l \<and> \<not> prefix ''#'' l) (text_lines_from [] text)"

subsection \<open>The loop over the group subject list\<close>

text \<open>
  The loop of lines 61 to 164 appends to two lists, \<open>exist_paths\<close> and
  \<open>derivative_paths\<close>, both empty before the loop.
\<close>

record subject_lists =
  exist_paths :: "string list"
  derivative_paths :: "string list"

text \<open>
  The test of lines 134 to 151 on one subject entry and one path. With repeated measures
  the entry is split at its commas (lines 110 to 117): the identifiers \<open>sub_id\<close>,
  \<open>other_id\<close>, \<open>scan_id\<close> and \<open>session_id\<close> are assigned under the same
  comma count under which the path test reads them, and an entry with three commas or
  more matches no path.
\<close>

definition path_matches :: "bool \<Rightarrow> string \<Rightarrow> string \<Rightarrow> bool" where
  "path_matches repeated_measures ga_sub path =
     (if repeated_measures then
        (if count_list ga_sub comma = 1 then
           (let sub_id = split_max comma 1 ga_sub ! 0;
                other_id = split_max comma 1 ga_sub ! 1
            in py_in sub_id path \<and> py_in other_id path)
         else if count_list ga_sub comma = 2 then
           (let sub_id = split_max comma 2 ga_sub ! 0;
                scan_id = split_max comma 2 ga_sub ! 1;
                session_id = split_max comma 2 ga_sub ! 2
            in py_in sub_id path \<and> py_in scan_id path \<and> py_in session_id path)
         else False)
      else py_in ga_sub path)"

text \<open>The inner loop \<open>for path in s_paths\<close> of lines 132 to 151.\<close>

fun scan_paths :: "bool \<Rightarrow> string \<Rightarrow> string list \<Rightarrow> subject_lists \<Rightarrow> subject_lists" where
  "scan_paths repeated_measures ga_sub [] st = st"
| "scan_paths repeated_measures ga_sub (path # s_paths) st =
     scan_paths repeated_measures ga_sub s_paths
       (if path_matches repeated_measures ga_sub path
        then st\<lparr>exist_paths := exist_paths st @ [ga_sub],
                derivative_paths := derivative_paths st @ [path]\<rparr>
        else st)"

text \<open>
  One iteration of the outer loop: the format check of lines 68 to 95, the scan of the
  paths, and the check of lines 156 to 164, which stands inside the loop.
\<close>

definition process_subject ::
  "bool \<Rightarrow> string list \<Rightarrow> subject_lists \<Rightarrow> string \<Rightarrow> py_error + subject_lists" where
  "process_subject repeated_measures s_paths st ga_sub =
     (if repeated_measures \<and> \<not> py_in [comma] ga_sub then Inl RepeatedMeasuresFormat
      else if \<not> repeated_measures \<and> py_in [comma] ga_sub then Inl NotRepeatedMeasuresFormat
      else
        let st' = scan_paths repeated_measures ga_sub s_paths st
        in if length (derivative_paths st') = 0 then Inl NoDerivatives else Inr st')"

fun subject_loop ::
  "bool \<Rightarrow> string list \<Rightarrow> subject_lists \<Rightarrow> string list \<Rightarrow> py_error + subject_lists" where
  "subject_loop repeated_measures s_paths st [] = Inr st"
| "subject_loop repeated_measures s_paths st (ga_sub # rest) =
     (case process_subject repeated_measures s_paths st ga_sub of
        Inl e \<Rightarrow> Inl e
      | Inr st' \<Rightarrow> subject_loop repeated_measures s_paths st' rest)"

definition filter_subjects ::
  "bool \<Rightarrow> string list \<Rightarrow> string list \<Rightarrow> py_error + subject_lists" where
  "filter_subjects repeated_measures entries s_paths =
     subject_loop repeated_measures s_paths
       \<lparr>exist_paths = [], derivative_paths = []\<rparr> entries"

text \<open>
  The statements after the loop are not part of the model: line 170, the first of them,
  reads the name \<open>subject_list\<close>, which the module binds nowhere.
\<close>

subsection \<open>Words of the specification about the loop\<close>

text \<open>
  The specification's format rule: the list format matches the repeated-measures flag
  when an entry has a comma exactly if repeated measures are enabled. The paths that
  match an entry are the candidate paths that pass the test of the loop.
\<close>

definition spec_format_mismatch :: "bool \<Rightarrow> string \<Rightarrow> bool" where
  "spec_format_mismatch repeated_measures ga_sub =
     (repeated_measures \<noteq> (comma \<in> set ga_sub))"

definition matching_paths :: "bool \<Rightarrow> string \<Rightarrow> string list \<Rightarrow> string list" where
  "matching_paths repeated_measures ga_sub s_paths =
     filter (path_matches repeated_measures ga_sub) s_paths"

text \<open>
  The identifiers of an entry are its pieces between the commas, \<open>ga_sub.split(',')\<close>
  (an entry has no more commas than characters). In words, not in the steps of the loop:
  without repeated measures an entry is found in a path when it is a substring of the
  path; with repeated measures, when it has two or three identifiers and each of them is
  a substring of the path.
\<close>

definition identifiers :: "string \<Rightarrow> string list" where
  "identifiers ga_sub = split_max comma (length ga_sub) ga_sub"

definition identifiers_in_path :: "bool \<Rightarrow> string \<Rightarrow> string \<Rightarrow> bool" where
  "identifiers_in_path repeated_measures ga_sub path =
     (if repeated_measures then
        (length (identifiers ga_sub) = 2 \<or> length (identifiers ga_sub) = 3)
        \<and> list_all (\<lambda>i. py_in i path) (identifiers ga_sub)
      else py_in ga_sub path)"

subsection \<open>The motion parameter file\<close>


subsection \<open>The path rewrites of the data sink\<close>

text \<open>
  Lines 448 to 456 give the data sink nine pairs of a regular expression and a
  replacement. The expressions have two forms: \<open>(?<=kw)(.)*[/]\<close>, a look-behind for
  the text \<open>kw\<close>, and \<open>kw(.)*[/]\<close>, the text \<open>kw\<close> itself; each is followed by
  \<open>(.)*[/]\<close>.

  The data sink applies the pairs in the order of the list, each with \<open>re.subn\<close>,
  which belongs to Python's library: it scans the string from the left, replaces a match
  where it finds one and goes on after the match. What a match is, for the two forms:
  \<open>.\<close> stands for any character but a newline, the star takes as many characters as
  it can, and \<open>[/]\<close> is one slash; so \<open>(.)*[/]\<close> at a position matches up to the
  last slash before the next newline, and does not match when there is no such slash.
  The look-behind holds at a position when the text before the position ends with
  \<open>kw\<close>. Every match has a slash, so no match is empty.
\<close>

datatype pattern = Lookbehind string | Literal string

definition dot_star_slash :: "string \<Rightarrow> nat option" where
  "dot_star_slash s =
     (let run = takeWhile (\<lambda>c. c \<noteq> newline) s
      in if slash \<in> set run
         then Some (length run - length (takeWhile (\<lambda>c. c \<noteq> slash) (rev run)))
         else None)"

fun match_at :: "pattern \<Rightarrow> string \<Rightarrow> string \<Rightarrow> nat option" where
  "match_at (Lookbehind kw) seen rest =
     (if suffix kw seen then dot_star_slash rest else None)"
| "match_at (Literal kw) seen rest =
     (if prefix kw rest
      then map_option (\<lambda>n. length kw + n) (dot_star_slash (drop (length kw) rest))
      else None)"

lemma length_takeWhile_neq_less:
  "x \<in> set xs \<Longrightarrow> length (takeWhile (\<lambda>c. c \<noteq> x) xs) < length xs"
  by (induction xs) auto

lemma dot_star_slash_pos: "dot_star_slash s = Some n \<Longrightarrow> 0 < n"
proof -
  assume a: "dot_star_slash s = Some n"
  let ?run = "takeWhile (\<lambda>c. c \<noteq> newline) s"
  from a have sl: "slash \<in> set (rev ?run)"
    by (simp add: dot_star_slash_def Let_def split: if_splits)
  have "length (takeWhile (\<lambda>c. c \<noteq> slash) (rev ?run)) < length (rev ?run)"
    using sl by (rule length_takeWhile_neq_less)
  with a show ?thesis
    by (simp add: dot_star_slash_def Let_def split: if_splits)
qed

lemma match_at_pos: "match_at pat seen rest = Some n \<Longrightarrow> 0 < n"
  by (cases pat) (auto split: if_splits dest: dot_star_slash_pos)

function re_sub_from :: "pattern \<Rightarrow> string \<Rightarrow> string \<Rightarrow> string \<Rightarrow> string" where
  "re_sub_from pat repl seen [] = []"
| "re_sub_from pat repl seen (c # cs) =
     (case match_at pat seen (c # cs) of
        None \<Rightarrow> c # re_sub_from pat repl (seen @ [c]) cs
      | Some n \<Rightarrow>
          repl @ re_sub_from pat repl (seen @ take n (c # cs)) (drop n (c # cs)))"
  by pat_completeness auto
termination
  by (relation "measure (\<lambda>(pat, repl, seen, rest). length rest)")
     (auto dest: match_at_pos)

definition re_sub :: "pattern \<Rightarrow> string \<Rightarrow> string \<Rightarrow> string" where
  "re_sub pat repl s = re_sub_from pat repl [] s"

definition regexp_substitutions :: "(pattern \<times> string) list" where
  "regexp_substitutions =
     [(Lookbehind ''rendered'', ''/''),
      (Lookbehind ''model_files'', ''/''),
      (Lookbehind ''merged'', ''/''),
      (Lookbehind ''stats/clusterMap'', ''/''),
      (Lookbehind ''stats/unthreshold'', ''/''),
      (Lookbehind ''stats/threshold'', ''/''),
      (Literal ''_cluster'', ''''),
      (Literal ''_slicer'', ''''),
      (Literal ''_overlay'', '''')]"

fun substitute_with :: "(pattern \<times> string) list \<Rightarrow> string \<Rightarrow> string" where
  "substitute_with [] pathstr = pathstr"
| "substitute_with ((key, val) # substitutions) pathstr =
     substitute_with substitutions (re_sub key val pathstr)"

definition substitute :: "string \<Rightarrow> string" where
  "substitute pathstr = substitute_with regexp_substitutions pathstr"

subsection \<open>Notions for the proof that the path rewrites are idempotent\<close>

text \<open>
  The part of a line after its last slash. An occurrence of a keyword \<open>kw\<close> in a line
  \<open>l\<close>, followed by a slash somewhere: \<open>l = a @ kw @ b\<close> with a slash in \<open>b\<close>;
  the first one is that of the shortest \<open>a\<close>.
\<close>

definition after_last_slash :: "string \<Rightarrow> string" where
  "after_last_slash v = rev (takeWhile (\<lambda>c. c \<noteq> slash) (rev v))"

definition occ :: "string \<Rightarrow> string \<Rightarrow> string \<Rightarrow> string \<Rightarrow> bool" where
  "occ kw l a b \<longleftrightarrow> l = a @ kw @ b \<and> slash \<in> set b"

definition first_occ :: "string \<Rightarrow> string \<Rightarrow> string \<Rightarrow> string \<Rightarrow> bool" where
  "first_occ kw l a b \<longleftrightarrow> occ kw l a b \<and> (\<forall>a' b'. occ kw l a' b' \<longrightarrow> length a \<le> length a')"

text \<open>
  The keyword of a pattern, what a rewrite leaves of its match, and the replacement that
  the list of the driver gives to a pattern of each form. A line is fixed for a pattern
  when the rewrite has nothing to change in it: after every occurrence of the keyword
  that a slash follows, a look-behind finds that slash at once and no slash after it; for
  a keyword that is matched itself, there is no such occurrence.
\<close>

fun keyword :: "pattern \<Rightarrow> string" where
  "keyword (Lookbehind kw) = kw"
| "keyword (Literal kw) = kw"

fun kept :: "pattern \<Rightarrow> string" where
  "kept (Lookbehind kw) = kw @ [slash]"
| "kept (Literal kw) = []"

fun std_repl :: "pattern \<Rightarrow> string" where
  "std_repl (Lookbehind kw) = [slash]"
| "std_repl (Literal kw) = []"

fun fixed_line :: "pattern \<Rightarrow> string \<Rightarrow> bool" where
  "fixed_line (Lookbehind kw) l =
     (\<forall>a b. occ kw l a b \<longrightarrow> (\<exists>t. b = slash # t \<and> slash \<notin> set t))"
| "fixed_line (Literal kw) l = (\<forall>a b. \<not> occ kw l a b)"

definition valid_rule :: "pattern \<times> string \<Rightarrow> bool" where
  "valid_rule r \<longleftrightarrow> snd r = std_repl (fst r) \<and> newline \<notin> set (keyword (fst r))"

text \<open>A function applied to every line of a text, the newlines kept.\<close>

fun map_lines_from :: "(string \<Rightarrow> string) \<Rightarrow> string \<Rightarrow> string \<Rightarrow> string" where
  "map_lines_from f cur [] = f cur"
| "map_lines_from f cur (c # cs) =
     (if c = newline then f cur @ c # map_lines_from f [] cs
      else map_lines_from f (cur @ [c]) cs)"

section \<open>Index resolution\<close>

text \<open>
  C1 (as amended). For an image with \<open>nvols\<close> volumes, \<open>get_idx\<close> returns a pair
  \<open>(stopidx, startidx)\<close> such that: a start index that is unset, negative or greater
  than \<open>nvols - 1\<close> resolves to \<open>0\<close>, and any other start index is returned unchanged;
  a stop index that is unset or greater than \<open>nvols - 1\<close> resolves to \<open>nvols - 1\<close>, and
  any other stop index, a negative one included, is returned unchanged.
\<close>

theorem get_idx_resolves:
  assumes "3 < length data_shape" and "data_shape ! 3 = nvols"
  shows "\<exists>stopidx startidx.
           get_idx data_shape stop_idx start_idx = Inr (stopidx, startidx)
         \<and> (start_idx = None \<longrightarrow> startidx = 0)
         \<and> (\<forall>s. start_idx = Some s \<longrightarrow> s < 0 \<or> nvols - 1 < s \<longrightarrow> startidx = 0)
         \<and> (\<forall>s. start_idx = Some s \<longrightarrow> 0 \<le> s \<longrightarrow> s \<le> nvols - 1 \<longrightarrow> startidx = s)
         \<and> (stop_idx = None \<longrightarrow> stopidx = nvols - 1)
         \<and> (\<forall>e. stop_idx = Some e \<longrightarrow> nvols - 1 < e \<longrightarrow> stopidx = nvols - 1)
         \<and> (\<forall>e. stop_idx = Some e \<longrightarrow> e \<le> nvols - 1 \<longrightarrow> stopidx = e)"
  using assms by (auto simp: get_idx_def Let_def split: option.splits)

theorem get_idx_resolves_witness:
  "get_idx [64, 64, 32, 10] None None = Inr (9, 0)
   \<and> get_idx [64, 64, 32, 10] (Some 12) (Some (- 2)) = Inr (9, 0)
   \<and> get_idx [64, 64, 32, 10] (Some 7) (Some 11) = Inr (7, 0)
   \<and> get_idx [64, 64, 32, 10] (Some (- 3)) (Some 4) = Inr (- 3, 4)"
proof -
  have shape: "3 < length [64, 64, 32, 10 :: int]" "[64, 64, 32, 10 :: int] ! 3 = 10"
    by simp_all
  have a: "get_idx [64, 64, 32, 10] None None = Inr (9, 0)"
    using get_idx_resolves [OF shape, of None None] by auto
  have b: "get_idx [64, 64, 32, 10] (Some 12) (Some (- 2)) = Inr (9, 0)"
    using get_idx_resolves [OF shape, of "Some 12" "Some (- 2)"] by auto
  have c: "get_idx [64, 64, 32, 10] (Some 7) (Some 11) = Inr (7, 0)"
    using get_idx_resolves [OF shape, of "Some 7" "Some 11"] by auto
  have d: "get_idx [64, 64, 32, 10] (Some (- 3)) (Some 4) = Inr (- 3, 4)"
    using get_idx_resolves [OF shape, of "Some (- 3)" "Some 4"] by auto
  from a b c d show ?thesis by simp
qed

text \<open>
  The claim as written also says that every stop index outside \<open>[0, nvols - 1]\<close> resolves
  to a boundary value. A negative stop index is outside the range and is returned as it
  is: with ten volumes, stop index \<open>-1\<close> resolves to \<open>-1\<close>, which is neither \<open>0\<close> nor \<open>9\<close>.
\<close>

theorem get_idx_negative_stop_counterexample:
  "get_idx [64, 64, 32, 10] (Some (- 1)) (Some (- 1)) = Inr (- 1, 0)"
  by (simp add: get_idx_def)

section \<open>Python strings: facts\<close>

text \<open>
  \<open>s.split(sep, n)\<close> returns one piece more than the separators it cut at: the
  indices the driver reads from the result are in range under its guards on
  \<open>ga_sub.count(',')\<close>.
\<close>

lemma dropWhile_neq_Cons:
  "dropWhile (\<lambda>x. x \<noteq> sep) s = a # rest \<Longrightarrow> a = sep"
  using hd_dropWhile [of "\<lambda>x. x \<noteq> sep" s] by auto

lemma count_list_takeWhile_neq:
  "count_list (takeWhile (\<lambda>x. x \<noteq> sep) s) sep = 0"
  by (induction s) auto

lemma count_list_split_first:
  "dropWhile (\<lambda>x. x \<noteq> sep) s = a # rest \<Longrightarrow> count_list s sep = Suc (count_list rest sep)"
proof -
  assume d: "dropWhile (\<lambda>x. x \<noteq> sep) s = a # rest"
  have "count_list s sep =
      count_list (takeWhile (\<lambda>x. x \<noteq> sep) s @ dropWhile (\<lambda>x. x \<noteq> sep) s) sep"
    by simp
  also have "\<dots> = Suc (count_list rest sep)"
    unfolding d using dropWhile_neq_Cons [OF d]
    by (simp add: count_list_takeWhile_neq)
  finally show ?thesis .
qed

lemma length_split_max:
  "length (split_max sep n s) = min n (count_list s sep) + 1"
proof (induction n arbitrary: s)
  case 0
  show ?case by simp
next
  case (Suc n)
  show ?case
  proof (cases "dropWhile (\<lambda>x. x \<noteq> sep) s")
    case Nil
    then have "sep \<notin> set s" by (auto simp: dropWhile_eq_Nil_conv)
    then have "count_list s sep = 0" by (simp add: count_list_0_iff)
    then show ?thesis by (simp add: Nil)
  next
    case (Cons a rest)
    show ?thesis
      by (simp add: Cons Suc.IH [of rest] count_list_split_first [OF Cons])
  qed
qed

lemma rstrip_snoc_same: "rstrip c (s @ [c]) = rstrip c s"
  by (simp add: rstrip_def)

lemma rstrip_notin: "c \<notin> set s \<Longrightarrow> rstrip c s = s"
  by (cases s rule: rev_cases) (auto simp: rstrip_def)

lemma takeWhile_neq_sep: "sep \<notin> set a \<Longrightarrow> takeWhile (\<lambda>x. x \<noteq> sep) (a @ sep # b) = a"
  by (induction a) auto

lemma dropWhile_neq_sep: "sep \<notin> set a \<Longrightarrow> dropWhile (\<lambda>x. x \<noteq> sep) (a @ sep # b) = sep # b"
  by (induction a) auto

lemma split_max_first:
  "sep \<notin> set a \<Longrightarrow> split_max sep (Suc n) (a @ sep # b) = a # split_max sep n b"
  by (simp add: takeWhile_neq_sep dropWhile_neq_sep)

lemma split_max_last: "sep \<notin> set a \<Longrightarrow> split_max sep n a = [a]"
proof (cases n)
  case 0
  then show ?thesis by simp
next
  case (Suc m)
  assume "sep \<notin> set a"
  then have d: "dropWhile (\<lambda>x. x \<noteq> sep) a = []" by (induction a) auto
  show ?thesis unfolding Suc split_max.simps d by simp
qed

lemma count_list_notin: "x \<notin> set xs \<Longrightarrow> count_list xs x = 0"
  by (simp add: count_list_0_iff)

section \<open>Parsing the group subject list\<close>

lemma group_sublist_Nil: "group_sublist [] = []"
  by (simp add: group_sublist_def)

lemma group_sublist_Cons:
  "group_sublist (l # ls) =
     (if l \<noteq> [newline] \<and> \<not> startswith l ''#'' then [rstrip newline l] else [])
       @ group_sublist ls"
  by (simp add: group_sublist_def)

lemma group_sublist_readlines_from:
  "newline \<notin> set cur \<Longrightarrow>
   group_sublist (readlines_from cur body) =
     filter (\<lambda>l. l \<noteq> [] \<and> \<not> prefix ''#'' l) (text_lines_from cur body)"
proof (induction body arbitrary: cur)
  case Nil
  then show ?case
    by (cases cur) (auto simp: group_sublist_Nil group_sublist_Cons startswith_def rstrip_notin)
next
  case (Cons c cs)
  show ?case
  proof (cases "c = newline")
    case True
    have r: "rstrip newline (cur @ [newline]) = cur"
      using Cons.prems by (simp add: rstrip_snoc_same rstrip_notin)
    have p: "cur \<noteq> [] \<Longrightarrow> prefix ''#'' (cur @ [newline]) = prefix ''#'' cur"
      by (cases cur) simp_all
    show ?thesis
      using True Cons.IH [of "[]"] r p
      by (auto simp: group_sublist_Cons startswith_def)
  next
    case False
    then show ?thesis using Cons.IH [of "cur @ [c]"] Cons.prems by simp
  qed
qed

text \<open>
  C5 (as amended). For every text of a subject-list file, the driver's parsing of the
  lines that \<open>readlines\<close> returns yields exactly the lines of the file that are not
  empty and do not start with \<open>#\<close>, without their newlines and in the order of the
  file: an empty line and a line that starts with \<open>#\<close> are ignored, and every other
  line, also one of white space only, becomes one entry.
\<close>

theorem group_sublist_parses:
  "group_sublist (readlines body) =
     filter (\<lambda>l. l \<noteq> [] \<and> \<not> prefix ''#'' l) (text_lines_from [] body)"
  by (simp add: readlines_def group_sublist_readlines_from)

theorem group_sublist_parses_witness:
  "group_sublist (readlines ''# subjects\<newline>sub001\<newline>\<newline>sub002,scan1\<newline>sub003'')
     = [''sub001'', ''sub002,scan1'', ''sub003'']"
proof -
  have "filter (\<lambda>l. l \<noteq> [] \<and> \<not> prefix ''#'' l)
      (text_lines_from [] ''# subjects\<newline>sub001\<newline>\<newline>sub002,scan1\<newline>sub003'')
     = [''sub001'', ''sub002,scan1'', ''sub003'']"
    by (simp add: newline_def)
  then show ?thesis by (simp only: group_sublist_parses)
qed

text \<open>
  The claim as written ignores the blank lines. The source drops a line only when it is
  the newline alone: the second line of this file holds two spaces, it is blank, and it
  becomes an entry.
\<close>

theorem group_sublist_blank_line_counterexample:
  "group_sublist (readlines ''sub001\<newline>  \<newline>sub002\<newline>'') = [''sub001'', ''  '', ''sub002'']
 \<and> spec_subject_entries ''sub001\<newline>  \<newline>sub002\<newline>'' = [''sub001'', ''sub002'']"
  by code_simp

section \<open>The loop over the group subject list\<close>

lemma py_in_char: "py_in [c] s \<longleftrightarrow> c \<in> set s"
  by (auto simp: py_in_def sublist_def in_set_conv_decomp)

text \<open>
  With repeated measures, an entry of two or three identifiers joined by commas matches a
  path when every identifier is a substring of the path.
\<close>

lemma path_matches_one_comma:
  assumes "comma \<notin> set sub_id" and "comma \<notin> set other_id"
  shows "path_matches True (sub_id @ comma # other_id) path
     \<longleftrightarrow> py_in sub_id path \<and> py_in other_id path"
proof -
  have c: "count_list (sub_id @ comma # other_id) comma = 1"
    using assms by (simp add: count_list_notin)
  have s: "split_max comma 1 (sub_id @ comma # other_id) = [sub_id, other_id]"
    using assms split_max_first [of comma sub_id 0 other_id] by simp
  show ?thesis unfolding path_matches_def c s by simp
qed

lemma path_matches_two_commas:
  assumes "comma \<notin> set sub_id" and "comma \<notin> set scan_id" and "comma \<notin> set session_id"
  shows "path_matches True (sub_id @ comma # scan_id @ comma # session_id) path
     \<longleftrightarrow> py_in sub_id path \<and> py_in scan_id path \<and> py_in session_id path"
proof -
  have c: "count_list (sub_id @ comma # scan_id @ comma # session_id) comma = 2"
    using assms by (simp add: count_list_notin)
  have "split_max comma 2 (sub_id @ comma # scan_id @ comma # session_id) =
      sub_id # split_max comma 1 (scan_id @ comma # session_id)"
    using assms(1) split_max_first [of comma sub_id 1 "scan_id @ comma # session_id"]
    by (simp add: numeral_2_eq_2)
  also have "split_max comma 1 (scan_id @ comma # session_id) = [scan_id, session_id]"
    using assms split_max_first [of comma scan_id 0 session_id] by simp
  finally have s: "split_max comma 2 (sub_id @ comma # scan_id @ comma # session_id) =
      [sub_id, scan_id, session_id]" .
  show ?thesis unfolding path_matches_def c s by simp
qed

lemma scan_paths_eq:
  "scan_paths rm g ps st =
     st\<lparr>exist_paths := exist_paths st @ replicate (length (matching_paths rm g ps)) g,
        derivative_paths := derivative_paths st @ matching_paths rm g ps\<rparr>"
  by (induction ps arbitrary: st) (simp_all add: matching_paths_def replicate_app_Cons_same)

lemma process_subject_cases:
  "process_subject rm ps st g =
     (if spec_format_mismatch rm g
      then Inl (if rm then RepeatedMeasuresFormat else NotRepeatedMeasuresFormat)
      else if derivative_paths st = [] \<and> matching_paths rm g ps = [] then Inl NoDerivatives
      else Inr (st\<lparr>exist_paths := exist_paths st @ replicate (length (matching_paths rm g ps)) g,
                    derivative_paths := derivative_paths st @ matching_paths rm g ps\<rparr>))"
  by (auto simp: process_subject_def spec_format_mismatch_def py_in_char scan_paths_eq Let_def)

lemma subject_loop_Inr:
  "subject_loop rm ps st es = Inr st' \<Longrightarrow>
     exist_paths st' =
       exist_paths st @ concat (map (\<lambda>g. replicate (length (matching_paths rm g ps)) g) es)
   \<and> derivative_paths st' =
       derivative_paths st @ concat (map (\<lambda>g. matching_paths rm g ps) es)"
proof (induction es arbitrary: st)
  case Nil
  then show ?case by simp
next
  case (Cons g es)
  then show ?case
    by (auto simp: process_subject_cases split: if_splits)
qed

lemma subject_loop_mismatch:
  "g \<in> set es \<Longrightarrow> spec_format_mismatch rm g \<Longrightarrow> \<exists>e. subject_loop rm ps st es = Inl e"
proof (induction es arbitrary: st)
  case Nil
  then show ?case by simp
next
  case (Cons a es)
  then show ?case
    by (cases "process_subject rm ps st a") (auto simp: process_subject_cases split: if_splits)
qed

lemma subject_loop_format_error:
  "subject_loop rm ps st es = Inl e \<Longrightarrow>
   e = RepeatedMeasuresFormat \<or> e = NotRepeatedMeasuresFormat \<Longrightarrow>
   \<exists>g \<in> set es. spec_format_mismatch rm g"
proof (induction es arbitrary: st)
  case Nil
  then show ?case by simp
next
  case (Cons a es)
  then show ?case
    by (cases "process_subject rm ps st a") (auto simp: process_subject_cases split: if_splits)
qed

lemma subject_loop_nonempty_derivs:
  "derivative_paths st \<noteq> [] \<Longrightarrow> \<forall>g \<in> set es. \<not> spec_format_mismatch rm g \<Longrightarrow>
   \<exists>st'. subject_loop rm ps st es = Inr st'"
proof (induction es arbitrary: st)
  case Nil
  then show ?case by simp
next
  case (Cons a es)
  then show ?case by (simp add: process_subject_cases)
qed

lemma concat_replicate_le_one:
  "\<forall>g \<in> set es. length (f g) \<le> 1 \<Longrightarrow>
   concat (map (\<lambda>g. replicate (length (f g)) g) es) = filter (\<lambda>g. f g \<noteq> []) es"
proof (induction es)
  case Nil
  then show ?case by simp
next
  case (Cons a es)
  then have "f a = [] \<or> length (f a) = 1" by (cases "f a") auto
  with Cons show ?case by auto
qed

lemma matching_paths_Nil_iff:
  "matching_paths rm g ps = [] \<longleftrightarrow> (\<forall>p \<in> set ps. \<not> path_matches rm g p)"
  by (simp add: matching_paths_def filter_empty_conv)

lemma count_list_replicate:
  "count_list (replicate n a) x = (if a = x then n else 0)"
  by (induction n) auto

lemma count_list_concat_replicate:
  "count_list (concat (map (\<lambda>g. replicate (k g) g) es)) x = count_list es x * k x"
proof (induction es)
  case Nil
  then show ?case by simp
next
  case (Cons a es)
  then show ?case by (simp add: count_list_replicate)
qed

lemma subject_loop_append:
  "subject_loop rm ps st (pre @ rest) =
     (case subject_loop rm ps st pre of
        Inl e \<Rightarrow> Inl e
      | Inr st' \<Rightarrow> subject_loop rm ps st' rest)"
  by (induction pre arbitrary: st) (auto split: sum.splits)

lemma subject_loop_reaches_mismatch:
  "subject_loop rm ps st es = Inl e \<Longrightarrow>
   e = RepeatedMeasuresFormat \<or> e = NotRepeatedMeasuresFormat \<Longrightarrow>
   \<exists>pre g post st'. es = pre @ g # post \<and> spec_format_mismatch rm g
      \<and> subject_loop rm ps st pre = Inr st'"
proof (induction es arbitrary: st)
  case Nil
  then show ?case by simp
next
  case (Cons a es)
  show ?case
  proof (cases "spec_format_mismatch rm a")
    case True
    then have "a # es = [] @ a # es \<and> spec_format_mismatch rm a
        \<and> subject_loop rm ps st [] = Inr st" by simp
    then show ?thesis by blast
  next
    case False
    show ?thesis
    proof (cases "process_subject rm ps st a")
      case (Inl e')
      with False have "e' = NoDerivatives"
        by (auto simp: process_subject_cases split: if_splits)
      with Inl Cons.prems show ?thesis by auto
    next
      case (Inr st1)
      with Cons.prems have "subject_loop rm ps st1 es = Inl e" by simp
      from Cons.IH [OF this Cons.prems(2)] obtain pre g post st'
        where d: "es = pre @ g # post" "spec_format_mismatch rm g"
          "subject_loop rm ps st1 pre = Inr st'" by blast
      from d(1) have "a # es = (a # pre) @ g # post" by simp
      moreover from d(3) Inr have "subject_loop rm ps st (a # pre) = Inr st'" by simp
      ultimately show ?thesis using d(2) by blast
    qed
  qed
qed

lemma subject_loop_at_mismatch:
  assumes "spec_format_mismatch rm g" and "subject_loop rm ps st pre = Inr st'"
  shows "subject_loop rm ps st (pre @ g # post) =
    Inl (if rm then RepeatedMeasuresFormat else NotRepeatedMeasuresFormat)"
  using assms by (simp add: subject_loop_append process_subject_cases)

text \<open>
  C4 (as amended). For every entry of the group subject list that the loop reaches, the
  driver raises the format failure exactly when the entry mismatches the
  repeated-measures flag: with repeated measures enabled, the failure for an entry with
  no comma; with repeated measures disabled, the failure for an entry with a comma;
  otherwise the processing of the entry continues with the scan of the paths. Over a
  whole list, the loop ends in a format failure exactly when it reaches a mismatching
  entry, that is, when it completes on the entries before one.
\<close>

theorem format_check:
  "(process_subject rm s_paths st ga_sub = Inl RepeatedMeasuresFormat
      \<longleftrightarrow> rm \<and> comma \<notin> set ga_sub)
 \<and> (process_subject rm s_paths st ga_sub = Inl NotRepeatedMeasuresFormat
      \<longleftrightarrow> \<not> rm \<and> comma \<in> set ga_sub)
 \<and> (\<not> spec_format_mismatch rm ga_sub \<longrightarrow>
      process_subject rm s_paths st ga_sub =
        (let st' = scan_paths rm ga_sub s_paths st
         in if derivative_paths st' = [] then Inl NoDerivatives else Inr st'))
 \<and> (subject_loop rm s_paths st entries = Inl RepeatedMeasuresFormat
      \<or> subject_loop rm s_paths st entries = Inl NotRepeatedMeasuresFormat
      \<longleftrightarrow> (\<exists>pre g post st'. entries = pre @ g # post \<and> spec_format_mismatch rm g
              \<and> subject_loop rm s_paths st pre = Inr st'))"
proof (intro conjI)
  show "process_subject rm s_paths st ga_sub = Inl RepeatedMeasuresFormat
      \<longleftrightarrow> rm \<and> comma \<notin> set ga_sub"
    by (auto simp: process_subject_def py_in_char Let_def)
  show "process_subject rm s_paths st ga_sub = Inl NotRepeatedMeasuresFormat
      \<longleftrightarrow> \<not> rm \<and> comma \<in> set ga_sub"
    by (auto simp: process_subject_def py_in_char Let_def)
  show "\<not> spec_format_mismatch rm ga_sub \<longrightarrow>
      process_subject rm s_paths st ga_sub =
        (let st' = scan_paths rm ga_sub s_paths st
         in if derivative_paths st' = [] then Inl NoDerivatives else Inr st')"
    by (auto simp: process_subject_def py_in_char Let_def spec_format_mismatch_def)
  show "subject_loop rm s_paths st entries = Inl RepeatedMeasuresFormat
      \<or> subject_loop rm s_paths st entries = Inl NotRepeatedMeasuresFormat
      \<longleftrightarrow> (\<exists>pre g post st'. entries = pre @ g # post \<and> spec_format_mismatch rm g
              \<and> subject_loop rm s_paths st pre = Inr st')"
  proof
    assume "subject_loop rm s_paths st entries = Inl RepeatedMeasuresFormat
      \<or> subject_loop rm s_paths st entries = Inl NotRepeatedMeasuresFormat"
    then show "\<exists>pre g post st'. entries = pre @ g # post \<and> spec_format_mismatch rm g
        \<and> subject_loop rm s_paths st pre = Inr st'"
      using subject_loop_reaches_mismatch by blast
  next
    assume "\<exists>pre g post st'. entries = pre @ g # post \<and> spec_format_mismatch rm g
        \<and> subject_loop rm s_paths st pre = Inr st'"
    then obtain pre g post st' where d: "entries = pre @ g # post"
      "spec_format_mismatch rm g" "subject_loop rm s_paths st pre = Inr st'" by blast
    from subject_loop_at_mismatch [OF d(2) d(3), of post] d(1)
    show "subject_loop rm s_paths st entries = Inl RepeatedMeasuresFormat
      \<or> subject_loop rm s_paths st entries = Inl NotRepeatedMeasuresFormat"
      by (cases rm) simp_all
  qed
qed

theorem format_check_witness:
  "process_subject True [''/out/p/s1/scan1/f.nii''] \<lparr>exist_paths = [], derivative_paths = []\<rparr> ''s1''
     = Inl RepeatedMeasuresFormat
 \<and> process_subject False [''/out/p/s1/scan1/f.nii''] \<lparr>exist_paths = [], derivative_paths = []\<rparr> ''s1,scan1''
     = Inl NotRepeatedMeasuresFormat
 \<and> process_subject False [''/out/p/s1/scan1/f.nii''] \<lparr>exist_paths = [], derivative_paths = []\<rparr> ''s1''
     = Inr \<lparr>exist_paths = [''s1''], derivative_paths = [''/out/p/s1/scan1/f.nii'']\<rparr>
 \<and> (subject_loop False [''/out/p/s1/scan1/f.nii''] \<lparr>exist_paths = [], derivative_paths = []\<rparr>
        [''s1'', ''s2,scan1''] = Inl RepeatedMeasuresFormat
    \<or> subject_loop False [''/out/p/s1/scan1/f.nii''] \<lparr>exist_paths = [], derivative_paths = []\<rparr>
        [''s1'', ''s2,scan1''] = Inl NotRepeatedMeasuresFormat)"
proof -
  let ?ps = "[''/out/p/s1/scan1/f.nii'']"
  let ?st = "\<lparr>exist_paths = [], derivative_paths = []\<rparr>"
  let ?st1 = "\<lparr>exist_paths = [''s1''], derivative_paths = [''/out/p/s1/scan1/f.nii'']\<rparr>"
  have a: "process_subject True ?ps ?st ''s1'' = Inl RepeatedMeasuresFormat"
    using format_check [of True ?ps ?st "''s1''"] by (simp add: comma_def)
  have b: "process_subject False ?ps ?st ''s1,scan1'' = Inl NotRepeatedMeasuresFormat"
    using format_check [of False ?ps ?st "''s1,scan1''"] by (simp add: comma_def)
  have "\<not> spec_format_mismatch False ''s1''"
    by (simp add: spec_format_mismatch_def comma_def)
  then have "process_subject False ?ps ?st ''s1'' =
     (let st' = scan_paths False ''s1'' ?ps ?st
      in if derivative_paths st' = [] then Inl NoDerivatives else Inr st')"
    using format_check [of False ?ps ?st "''s1''"] by blast
  moreover have "path_matches False ''s1'' ''/out/p/s1/scan1/f.nii''"
    by (simp add: path_matches_def py_in_def sublist_code prefix_code)
  ultimately have c: "process_subject False ?ps ?st ''s1'' = Inr ?st1"
    by simp
  have "[''s1'', ''s2,scan1''] = [''s1''] @ ''s2,scan1'' # []
      \<and> spec_format_mismatch False ''s2,scan1''
      \<and> subject_loop False ?ps ?st [''s1''] = Inr ?st1"
    using c by (simp add: spec_format_mismatch_def comma_def)
  then have "\<exists>pre g post st'. [''s1'', ''s2,scan1''] = pre @ g # post
      \<and> spec_format_mismatch False g \<and> subject_loop False ?ps ?st pre = Inr st'"
    by blast
  then have d: "subject_loop False ?ps ?st [''s1'', ''s2,scan1''] = Inl RepeatedMeasuresFormat
      \<or> subject_loop False ?ps ?st [''s1'', ''s2,scan1''] = Inl NotRepeatedMeasuresFormat"
    using format_check [of False ?ps ?st _ "[''s1'', ''s2,scan1'']"] by blast
  from a b c d show ?thesis by blast
qed

text \<open>
  The claim as written takes a whole list: it raises the format failure if and only if
  the list mismatches the flag. With repeated measures disabled, the second entry of this
  list has a comma, and the loop ends in the other failure, that of the missing
  derivatives, at the first entry.
\<close>

theorem format_check_preempted_counterexample:
  "spec_format_mismatch False ''s1,scan1''
 \<and> filter_subjects False [''s9'', ''s1,scan1''] [''/out/pipeline_a/s1/scan1/alff.nii.gz'']
     = Inl NoDerivatives"
  by code_simp

section \<open>The filtered subject list\<close>

lemma filter_subjects_Inr:
  "filter_subjects rm entries s_paths = Inr st \<Longrightarrow>
     exist_paths st =
       concat (map (\<lambda>g. replicate (length (matching_paths rm g s_paths)) g) entries)
   \<and> derivative_paths st = concat (map (\<lambda>g. matching_paths rm g s_paths) entries)"
  using subject_loop_Inr [of rm s_paths "\<lparr>exist_paths = [], derivative_paths = []\<rparr>" entries st]
  by (simp add: filter_subjects_def)

lemma matching_paths_nonempty_iff:
  "matching_paths rm g ps \<noteq> [] \<longleftrightarrow> (\<exists>p \<in> set ps. path_matches rm g p)"
  by (simp add: matching_paths_Nil_iff)

text \<open>
  The loop completes exactly when no entry mismatches the format and, for a list that is
  not empty, its first entry matches a path: the check of lines 156 to 164 runs at the end
  of every iteration, on the paths collected so far.
\<close>

lemma filter_subjects_completes_iff:
  "(\<exists>st. filter_subjects rm entries s_paths = Inr st) \<longleftrightarrow>
     (\<forall>g \<in> set entries. \<not> spec_format_mismatch rm g)
   \<and> (entries = [] \<or> matching_paths rm (hd entries) s_paths \<noteq> [])"
proof (cases entries)
  case Nil
  then show ?thesis by (simp add: filter_subjects_def)
next
  case (Cons g rest)
  show ?thesis
  proof (cases "spec_format_mismatch rm g \<or> matching_paths rm g s_paths = []")
    case True
    then show ?thesis
      by (auto simp: filter_subjects_def Cons process_subject_cases)
  next
    case False
    let ?st = "\<lparr>exist_paths = replicate (length (matching_paths rm g s_paths)) g,
                derivative_paths = matching_paths rm g s_paths\<rparr>"
    have step: "filter_subjects rm entries s_paths = subject_loop rm s_paths ?st rest"
      using False by (simp add: filter_subjects_def Cons process_subject_cases)
    have d: "derivative_paths ?st \<noteq> []" using False by simp
    show ?thesis
    proof
      assume "\<exists>st. filter_subjects rm entries s_paths = Inr st"
      then obtain st where st: "subject_loop rm s_paths ?st rest = Inr st"
        unfolding step by blast
      have "\<not> spec_format_mismatch rm x" if "x \<in> set rest" for x
      proof
        assume "spec_format_mismatch rm x"
        from subject_loop_mismatch [OF that this, of s_paths ?st] st show False by auto
      qed
      with False show "(\<forall>g \<in> set entries. \<not> spec_format_mismatch rm g)
          \<and> (entries = [] \<or> matching_paths rm (hd entries) s_paths \<noteq> [])"
        by (auto simp: Cons)
    next
      assume "(\<forall>g \<in> set entries. \<not> spec_format_mismatch rm g)
          \<and> (entries = [] \<or> matching_paths rm (hd entries) s_paths \<noteq> [])"
      then have "\<forall>g \<in> set rest. \<not> spec_format_mismatch rm g" by (simp add: Cons)
      from subject_loop_nonempty_derivs [OF d this, of s_paths]
      show "\<exists>st. filter_subjects rm entries s_paths = Inr st"
        unfolding step .
    qed
  qed
qed

text \<open>
  C2 (as amended). When the loop over the group subject list completes and every entry
  of the list matches at most one candidate path, the filtered list is exactly the
  entries that match a path, in the order of the group subject list. For the subject list
  001, 002, 003 with paths for 001 and 003 only, the filtered list is 001, 003. The
  subject-list file is left out: the statements between the loop and the writing of the
  file are not part of the model.
\<close>

theorem filtered_list_single_match:
  assumes "filter_subjects rm entries s_paths = Inr st"
      and "\<forall>g \<in> set entries. length (matching_paths rm g s_paths) \<le> 1"
  shows "exist_paths st = filter (\<lambda>g. \<exists>p \<in> set s_paths. path_matches rm g p) entries"
proof -
  have "exist_paths st =
      concat (map (\<lambda>g. replicate (length (matching_paths rm g s_paths)) g) entries)"
    using filter_subjects_Inr [OF assms(1)] by simp
  also have "\<dots> = filter (\<lambda>g. matching_paths rm g s_paths \<noteq> []) entries"
    using assms(2) by (rule concat_replicate_le_one)
  also have "\<dots> = filter (\<lambda>g. \<exists>p \<in> set s_paths. path_matches rm g p) entries"
    by (simp add: matching_paths_nonempty_iff)
  finally show ?thesis .
qed

theorem filtered_list_single_match_witness:
  "filter_subjects False [''001'', ''002'', ''003'']
       [''/out/pipeline_a/001/scan_rest/alff/alff.nii.gz'',
        ''/out/pipeline_a/003/scan_rest/alff/alff.nii.gz'']
     = Inr \<lparr>exist_paths = [''001'', ''003''],
            derivative_paths = [''/out/pipeline_a/001/scan_rest/alff/alff.nii.gz'',
                                ''/out/pipeline_a/003/scan_rest/alff/alff.nii.gz'']\<rparr>
   \<and> filter (\<lambda>g. \<exists>p \<in> set [''/out/pipeline_a/001/scan_rest/alff/alff.nii.gz'',
                             ''/out/pipeline_a/003/scan_rest/alff/alff.nii.gz''].
                  path_matches False g p) [''001'', ''002'', ''003'']
     = [''001'', ''003'']"
proof -
  let ?E = "[''001'', ''002'', ''003'']"
  let ?P = "[''/out/pipeline_a/001/scan_rest/alff/alff.nii.gz'',
             ''/out/pipeline_a/003/scan_rest/alff/alff.nii.gz'']"
  let ?X = "\<lparr>exist_paths = [''001'', ''003''], derivative_paths = ?P\<rparr>"
  have run: "filter_subjects False ?E ?P = Inr ?X"
    by code_simp
  have single: "\<forall>g \<in> set ?E. length (matching_paths False g ?P) \<le> 1"
    by code_simp
  have kept: "exist_paths ?X = filter (\<lambda>g. \<exists>p \<in> set ?P. path_matches False g p) ?E"
    using filtered_list_single_match [OF run single] .
  from run kept show ?thesis by simp
qed

text \<open>
  The claim as written fails when a subject matches more than one path: of the two
  subjects 001 and 002 only 001 has derivative paths, and it has two of them (two scans);
  the filtered list holds two entries, not one.
\<close>

theorem filtered_list_duplicates_counterexample:
  "filter_subjects False [''001'', ''002'']
       [''/out/pipeline_a/001/scan_rest_1/alff/alff.nii.gz'',
        ''/out/pipeline_a/001/scan_rest_2/alff/alff.nii.gz'']
     = Inr \<lparr>exist_paths = [''001'', ''001''],
            derivative_paths = [''/out/pipeline_a/001/scan_rest_1/alff/alff.nii.gz'',
                                ''/out/pipeline_a/001/scan_rest_2/alff/alff.nii.gz'']\<rparr>
   \<and> filter (\<lambda>g. \<exists>p \<in> set [''/out/pipeline_a/001/scan_rest_1/alff/alff.nii.gz'',
                             ''/out/pipeline_a/001/scan_rest_2/alff/alff.nii.gz''].
                  path_matches False g p) [''001'', ''002'']
     = [''001'']"
  by code_simp

section \<open>Failure when no derivative is found\<close>

text \<open>
  C3 (as amended). Subject filtering fails fatally when no candidate path matches any
  entry of a subject list that is not empty: the loop raises at the first entry (the
  missing-derivatives failure when that entry passes the format check). An entry with no
  matching path that the loop reaches after derivative paths have been collected is not
  fatal: the entry is dropped and the lists stay as they are.
\<close>

theorem no_derivatives_fatal:
  "(entries \<noteq> [] \<and> (\<forall>g \<in> set entries. matching_paths rm g s_paths = []) \<longrightarrow>
      (\<exists>e. filter_subjects rm entries s_paths = Inl e)
    \<and> (\<not> spec_format_mismatch rm (hd entries) \<longrightarrow>
         filter_subjects rm entries s_paths = Inl NoDerivatives))
 \<and> (derivative_paths st \<noteq> [] \<and> \<not> spec_format_mismatch rm ga_sub
      \<and> matching_paths rm ga_sub s_paths = [] \<longrightarrow>
      process_subject rm s_paths st ga_sub = Inr st)"
proof (intro conjI impI)
  assume a: "entries \<noteq> [] \<and> (\<forall>g \<in> set entries. matching_paths rm g s_paths = [])"
  then obtain g rest where e: "entries = g # rest" by (cases entries) auto
  with a have m: "matching_paths rm g s_paths = []" by simp
  show "\<exists>e. filter_subjects rm entries s_paths = Inl e"
    by (simp add: filter_subjects_def e process_subject_cases m)
  show "filter_subjects rm entries s_paths = Inl NoDerivatives"
    if "\<not> spec_format_mismatch rm (hd entries)"
    using that by (simp add: filter_subjects_def e process_subject_cases m)
next
  assume "derivative_paths st \<noteq> [] \<and> \<not> spec_format_mismatch rm ga_sub
      \<and> matching_paths rm ga_sub s_paths = []"
  then show "process_subject rm s_paths st ga_sub = Inr st"
    by (simp add: process_subject_cases)
qed

theorem no_derivatives_fatal_witness:
  "filter_subjects False [''sub09'', ''sub10'']
       [''/out/pipeline_a/sub01/scan_rest/reho/reho.nii.gz''] = Inl NoDerivatives
   \<and> process_subject False [''/out/pipeline_a/sub01/scan_rest/reho/reho.nii.gz'']
        \<lparr>exist_paths = [''sub01''],
          derivative_paths = [''/out/pipeline_a/sub01/scan_rest/reho/reho.nii.gz'']\<rparr> ''sub02''
     = Inr \<lparr>exist_paths = [''sub01''],
            derivative_paths = [''/out/pipeline_a/sub01/scan_rest/reho/reho.nii.gz'']\<rparr>"
proof -
  let ?P = "[''/out/pipeline_a/sub01/scan_rest/reho/reho.nii.gz'']"
  let ?st = "\<lparr>exist_paths = [''sub01''], derivative_paths = ?P\<rparr>"
  have h1: "[''sub09'', ''sub10''] \<noteq> []
      \<and> (\<forall>g \<in> set [''sub09'', ''sub10'']. matching_paths False g ?P = [])"
    by code_simp
  have h2: "\<not> spec_format_mismatch False (hd [''sub09'', ''sub10''])"
    by code_simp
  have h3: "derivative_paths ?st \<noteq> [] \<and> \<not> spec_format_mismatch False ''sub02''
      \<and> matching_paths False ''sub02'' ?P = []"
    by code_simp
  have a: "filter_subjects False [''sub09'', ''sub10''] ?P = Inl NoDerivatives"
    using no_derivatives_fatal [of "[''sub09'', ''sub10'']" False ?P] h1 h2 by blast
  have b: "process_subject False ?P ?st ''sub02'' = Inr ?st"
    using no_derivatives_fatal [of _ False ?P ?st "''sub02''"] h3 by blast
  from a b show ?thesis by simp
qed

text \<open>
  The claim as written says that the driver fails whenever no path matches a listed
  subject. Subject sub02 has no matching path, and the filtering completes without it.
\<close>

theorem dropped_subject_counterexample:
  "matching_paths False ''sub02'' [''/out/pipeline_a/sub01/scan_rest/reho/reho.nii.gz''] = []
   \<and> filter_subjects False [''sub01'', ''sub02'']
        [''/out/pipeline_a/sub01/scan_rest/reho/reho.nii.gz'']
     = Inr \<lparr>exist_paths = [''sub01''],
            derivative_paths = [''/out/pipeline_a/sub01/scan_rest/reho/reho.nii.gz'']\<rparr>"
  by code_simp

section \<open>One entry for every matching path\<close>

text \<open>
  The test of the loop on an entry and a path, in words: the loop finds exactly the
  entries whose identifiers are in the path.
\<close>

lemma count_list_Suc_split:
  assumes "count_list g x = Suc n"
  shows "\<exists>a b. g = a @ x # b \<and> x \<notin> set a \<and> count_list b x = n"
proof -
  from assms have "x \<in> set g" by (metis count_list_0_iff nat.distinct(1))
  then obtain a b where d: "g = a @ x # b" "x \<notin> set a" by (auto dest: split_list_first)
  with assms have "count_list b x = n" by (simp add: count_list_notin)
  with d show ?thesis by blast
qed

lemma count_list_le_length: "count_list xs x \<le> length xs"
  by (induction xs) auto

lemma length_identifiers: "length (identifiers g) = count_list g comma + 1"
  using count_list_le_length [of g comma]
  by (simp add: identifiers_def length_split_max)

lemma identifiers_two:
  assumes "comma \<notin> set a" and "comma \<notin> set b"
  shows "identifiers (a @ comma # b) = [a, b]"
proof -
  have "identifiers (a @ comma # b) = split_max comma (Suc (length a + length b)) (a @ comma # b)"
    by (simp add: identifiers_def)
  also have "\<dots> = a # split_max comma (length a + length b) b"
    using assms(1) by (rule split_max_first)
  also have "\<dots> = [a, b]"
    using assms(2) by (simp add: split_max_last)
  finally show ?thesis .
qed

lemma identifiers_three:
  assumes "comma \<notin> set a" and "comma \<notin> set b" and "comma \<notin> set c"
  shows "identifiers (a @ comma # b @ comma # c) = [a, b, c]"
proof -
  let ?n = "length a + (length b + length c)"
  have "identifiers (a @ comma # b @ comma # c) =
      split_max comma (Suc (Suc ?n)) (a @ comma # b @ comma # c)"
    by (simp add: identifiers_def)
  also have "\<dots> = a # split_max comma (Suc ?n) (b @ comma # c)"
    using assms(1) by (rule split_max_first)
  also have "split_max comma (Suc ?n) (b @ comma # c) = b # split_max comma ?n c"
    using assms(2) by (rule split_max_first)
  also have "split_max comma ?n c = [c]"
    using assms(3) by (rule split_max_last)
  finally show ?thesis .
qed

lemma path_matches_identifiers:
  "path_matches rm g p = identifiers_in_path rm g p"
proof (cases rm)
  case False
  then show ?thesis by (simp add: path_matches_def identifiers_in_path_def)
next
  case True
  consider "count_list g comma = 1" | "count_list g comma = 2"
    | "count_list g comma \<noteq> 1" "count_list g comma \<noteq> 2" by blast
  then show ?thesis
  proof cases
    case 1
    then have "count_list g comma = Suc 0" by simp
    from count_list_Suc_split [OF this] obtain a b
      where d: "g = a @ comma # b" "comma \<notin> set a" "count_list b comma = 0" by blast
    from d(3) have b: "comma \<notin> set b" by (simp add: count_list_0_iff)
    from path_matches_one_comma [OF d(2) b, of p] identifiers_two [OF d(2) b] True d(1)
    show ?thesis by (simp add: identifiers_in_path_def)
  next
    case 2
    then have "count_list g comma = Suc (Suc 0)" by simp
    from count_list_Suc_split [OF this] obtain a r
      where d: "g = a @ comma # r" "comma \<notin> set a" "count_list r comma = Suc 0" by blast
    from count_list_Suc_split [OF d(3)] obtain b c
      where e: "r = b @ comma # c" "comma \<notin> set b" "count_list c comma = 0" by blast
    from e(3) have c: "comma \<notin> set c" by (simp add: count_list_0_iff)
    from path_matches_two_commas [OF d(2) e(2) c, of p] identifiers_three [OF d(2) e(2) c]
      True d(1) e(1)
    show ?thesis by (simp add: identifiers_in_path_def)
  next
    case 3
    then have "length (identifiers g) \<noteq> 2" "length (identifiers g) \<noteq> 3"
      by (simp_all add: length_identifiers)
    with 3 True show ?thesis by (simp add: path_matches_def identifiers_in_path_def)
  qed
qed

lemma matching_paths_identifiers:
  "matching_paths rm g ps = filter (identifiers_in_path rm g) ps"
proof -
  have "path_matches rm g = identifiers_in_path rm g"
    by (rule ext) (rule path_matches_identifiers)
  then show ?thesis by (simp add: matching_paths_def)
qed

text \<open>
  C10 (as amended). When the loop over the group subject list completes, the filtered
  list holds every entry of the subject list once for each candidate path in which the
  entry is found, in the order of the subject list. Without repeated measures an entry
  is found in a path when the entry is a substring of the path. With repeated measures
  an entry of two or three identifiers joined by commas is found in a path when each
  identifier is a substring of the path, and an entry of any other form is found in no
  path. So an entry that is found in \<open>k\<close> paths is in the filtered list \<open>k\<close> times
  for each of its occurrences in the subject list; an entry that is a substring of the
  path of another subject is kept, and an entry found in several paths appears more than
  once. The subject-list file is left out.
\<close>

theorem filtered_list_per_match:
  assumes "filter_subjects rm entries s_paths = Inr st"
  shows "exist_paths st =
           concat (map (\<lambda>g. replicate (length (filter (identifiers_in_path rm g) s_paths)) g)
             entries)
       \<and> (\<forall>g. count_list (exist_paths st) g =
              count_list entries g * length (filter (identifiers_in_path rm g) s_paths))
       \<and> (\<forall>g \<in> set entries. (\<exists>p \<in> set s_paths. identifiers_in_path rm g p) \<longrightarrow>
              g \<in> set (exist_paths st))
       \<and> (\<forall>g \<in> set entries. 1 < length (filter (identifiers_in_path rm g) s_paths) \<longrightarrow>
              1 < count_list (exist_paths st) g)"
proof -
  let ?k = "\<lambda>g. length (filter (identifiers_in_path rm g) s_paths)"
  have ex: "exist_paths st = concat (map (\<lambda>g. replicate (?k g) g) entries)"
    using filter_subjects_Inr [OF assms] by (simp add: matching_paths_identifiers)
  have cnt: "count_list (exist_paths st) g = count_list entries g * ?k g" for g
    unfolding ex by (rule count_list_concat_replicate)
  have kept: "g \<in> set (exist_paths st)"
    if "g \<in> set entries" "\<exists>p \<in> set s_paths. identifiers_in_path rm g p" for g
  proof -
    from that(1) have "count_list entries g \<noteq> 0"
      by (simp add: count_list_0_iff)
    moreover from that(2) have "filter (identifiers_in_path rm g) s_paths \<noteq> []"
      by (simp add: filter_empty_conv)
    ultimately have "count_list (exist_paths st) g \<noteq> 0" by (simp add: cnt)
    then show ?thesis by (simp add: count_list_0_iff)
  qed
  have many: "1 < count_list (exist_paths st) g"
    if "g \<in> set entries" "1 < ?k g" for g
  proof -
    from that(1) have "count_list entries g \<noteq> 0"
      by (simp add: count_list_0_iff)
    then obtain c where c: "count_list entries g = Suc c"
      by (cases "count_list entries g") auto
    have "1 < ?k g + c * ?k g"
      using that(2) by simp
    then show ?thesis by (simp add: cnt c)
  qed
  from ex cnt kept many show ?thesis by blast
qed

theorem filtered_list_per_match_witness:
  "filter_subjects False [''sub1'', ''sub10'']
       [''/out/pipeline_a/sub10/scan_rest/vmhc.nii.gz'',
        ''/out/pipeline_a/sub1/scan_rest/vmhc.nii.gz'']
     = Inr \<lparr>exist_paths = [''sub1'', ''sub1'', ''sub10''],
            derivative_paths = [''/out/pipeline_a/sub10/scan_rest/vmhc.nii.gz'',
                                ''/out/pipeline_a/sub1/scan_rest/vmhc.nii.gz'',
                                ''/out/pipeline_a/sub10/scan_rest/vmhc.nii.gz'']\<rparr>
   \<and> count_list [''sub1'', ''sub1'', ''sub10''] ''sub1'' = 2
   \<and> length (filter (identifiers_in_path False ''sub1'')
        [''/out/pipeline_a/sub10/scan_rest/vmhc.nii.gz'',
         ''/out/pipeline_a/sub1/scan_rest/vmhc.nii.gz'']) = 2"
proof -
  let ?E = "[''sub1'', ''sub10'']"
  let ?P = "[''/out/pipeline_a/sub10/scan_rest/vmhc.nii.gz'',
             ''/out/pipeline_a/sub1/scan_rest/vmhc.nii.gz'']"
  let ?X = "\<lparr>exist_paths = [''sub1'', ''sub1'', ''sub10''],
             derivative_paths = [''/out/pipeline_a/sub10/scan_rest/vmhc.nii.gz'',
                                 ''/out/pipeline_a/sub1/scan_rest/vmhc.nii.gz'',
                                 ''/out/pipeline_a/sub10/scan_rest/vmhc.nii.gz'']\<rparr>"
  have run: "filter_subjects False ?E ?P = Inr ?X"
    by code_simp
  have k: "length (filter (identifiers_in_path False ''sub1'') ?P) = 2"
    by code_simp
  have "count_list (exist_paths ?X) ''sub1'' =
      count_list ?E ''sub1'' * length (filter (identifiers_in_path False ''sub1'') ?P)"
    using filtered_list_per_match [OF run] by blast
  then have "count_list [''sub1'', ''sub1'', ''sub10''] ''sub1'' = 2"
    by (simp add: k)
  with run k show ?thesis by simp
qed

text \<open>
  The claim as written counts the paths in which the identifiers of an entry occur, for
  every entry. With repeated measures the second entry of this list has four
  identifiers; each of them is a substring of the second path, and the filtered list,
  which the loop completes, does not hold the entry.
\<close>

theorem filtered_list_four_identifiers_counterexample:
  "filter_subjects True [''s0,scan1'', ''s1,scan1,sess1,run1'']
       [''/out/pipeline_a/s0/scan1/alff.nii.gz'',
        ''/out/pipeline_a/s1_sess1/scan1_run1/alff.nii.gz'']
     = Inr \<lparr>exist_paths = [''s0,scan1''],
            derivative_paths = [''/out/pipeline_a/s0/scan1/alff.nii.gz'']\<rparr>
 \<and> identifiers ''s1,scan1,sess1,run1'' = [''s1'', ''scan1'', ''sess1'', ''run1'']
 \<and> list_all (\<lambda>i. py_in i ''/out/pipeline_a/s1_sess1/scan1_run1/alff.nii.gz'')
      (identifiers ''s1,scan1,sess1,run1'')"
  by code_simp

section \<open>The motion parameter file\<close>




section \<open>The two passes of motion correction\<close>

text \<open>
  C7. In the workflow that \<open>create_func_preproc\<close> builds, exactly two steps run the
  motion correction interface: \<open>func_motion_correct\<close> (pass 1) and
  \<open>func_motion_correct_A\<close> (pass 2). The base file of pass 1 is the output of
  \<open>func_get_mean_RPI\<close>, the mean of the reoriented data, and that of pass 2 is the
  output of \<open>func_get_mean_motion\<close>, the mean of the output of pass 1. In every run
  order of the workflow the reorientation comes before its mean, the mean before pass 1,
  pass 1 before the mean of its output and that mean before pass 2; and the workflow has
  a run order.
\<close>

theorem motion_correction_passes:
  "filter (\<lambda>n. interface_of n = Threedvolreg) workflow_nodes
     = [func_motion_correct, func_motion_correct_A]
 \<and> sources_of func_motion_correct ''basefile'' = [(func_get_mean_RPI, ''out_file'')]
 \<and> sources_of func_get_mean_RPI ''in_file'' = [(func_reorient, ''out_file'')]
 \<and> sources_of func_get_mean_motion ''in_file'' = [(func_motion_correct, ''out_file'')]
 \<and> sources_of func_motion_correct_A ''basefile'' = [(func_get_mean_motion, ''out_file'')]
 \<and> (\<forall>pos. run_order pos \<longrightarrow>
        pos func_reorient < pos func_get_mean_RPI
      \<and> pos func_get_mean_RPI < pos func_motion_correct
      \<and> pos func_motion_correct < pos func_get_mean_motion
      \<and> pos func_get_mean_motion < pos func_motion_correct_A)
 \<and> (\<exists>pos. run_order pos)"
proof (intro conjI)
  show "filter (\<lambda>n. interface_of n = Threedvolreg) workflow_nodes
     = [func_motion_correct, func_motion_correct_A]"
    by (simp add: workflow_nodes_def)
  show "sources_of func_motion_correct ''basefile'' = [(func_get_mean_RPI, ''out_file'')]"
    by (simp add: sources_of_def connections_def)
  show "sources_of func_get_mean_RPI ''in_file'' = [(func_reorient, ''out_file'')]"
    by (simp add: sources_of_def connections_def)
  show "sources_of func_get_mean_motion ''in_file'' = [(func_motion_correct, ''out_file'')]"
    by (simp add: sources_of_def connections_def)
  show "sources_of func_motion_correct_A ''basefile'' = [(func_get_mean_motion, ''out_file'')]"
    by (simp add: sources_of_def connections_def)
  show "\<forall>pos. run_order pos \<longrightarrow>
        pos func_reorient < pos func_get_mean_RPI
      \<and> pos func_get_mean_RPI < pos func_motion_correct
      \<and> pos func_motion_correct < pos func_get_mean_motion
      \<and> pos func_get_mean_motion < pos func_motion_correct_A"
    by (simp add: run_order_def connections_def)
  have "run_order run_position"
    by (simp add: run_order_def connections_def)
  then show "\<exists>pos. run_order pos" by blast
qed

theorem motion_correction_passes_witness:
  "run_order run_position
 \<and> run_position func_reorient < run_position func_get_mean_RPI
 \<and> run_position func_get_mean_RPI < run_position func_motion_correct
 \<and> run_position func_motion_correct < run_position func_get_mean_motion
 \<and> run_position func_get_mean_motion < run_position func_motion_correct_A"
proof -
  have r: "run_order run_position"
    by (simp add: run_order_def connections_def)
  with motion_correction_passes show ?thesis by blast
qed

section \<open>The path rewrites are idempotent\<close>

subsection \<open>The match of \<open>(.)*[/]\<close> and the scan of a line\<close>

lemma after_last_slash_notin: "slash \<notin> set (after_last_slash v)"
  by (auto simp: after_last_slash_def dest: set_takeWhileD)

lemma takeWhile_neq_notin: "x \<notin> set xs \<Longrightarrow> takeWhile (\<lambda>c. c \<noteq> x) xs = xs"
  by (induction xs) auto

lemma after_last_slash_append: "slash \<notin> set t \<Longrightarrow> after_last_slash (h @ slash # t) = t"
  by (simp add: after_last_slash_def takeWhile_tail takeWhile_neq_notin)

lemma after_last_slash_id: "slash \<notin> set t \<Longrightarrow> after_last_slash t = t"
  by (simp add: after_last_slash_def takeWhile_neq_notin)

lemma last_slash_split: "slash \<in> set v \<Longrightarrow> \<exists>h. v = h @ slash # after_last_slash v"
proof -
  assume "slash \<in> set v"
  then have "slash \<in> set (rev v)" by simp
  then obtain r where r: "dropWhile (\<lambda>c. c \<noteq> slash) (rev v) = slash # r"
    by (metis (mono_tags, lifting) dropWhile_eq_Nil_conv hd_dropWhile list.collapse)
  have "rev v = takeWhile (\<lambda>c. c \<noteq> slash) (rev v) @ slash # r"
    using takeWhile_dropWhile_id [of "\<lambda>c. c \<noteq> slash" "rev v"] r by simp
  then have "rev (rev v) = rev (takeWhile (\<lambda>c. c \<noteq> slash) (rev v) @ slash # r)"
    by simp
  then have "v = rev r @ slash # after_last_slash v"
    by (simp add: after_last_slash_def)
  then show ?thesis ..
qed

lemma takeWhile_line:
  "newline \<notin> set v \<Longrightarrow> rest = [] \<or> hd rest = newline \<Longrightarrow>
   takeWhile (\<lambda>c. c \<noteq> newline) (v @ rest) = v"
  by (cases rest) (auto simp: takeWhile_tail takeWhile_neq_notin)

lemma dot_star_slash_line:
  "newline \<notin> set v \<Longrightarrow> rest = [] \<or> hd rest = newline \<Longrightarrow>
   dot_star_slash (v @ rest) =
     (if slash \<in> set v then Some (length v - length (after_last_slash v)) else None)"
  by (simp add: dot_star_slash_def takeWhile_line after_last_slash_def)

lemma dot_star_slash_nlfree:
  "newline \<notin> set v \<Longrightarrow>
   dot_star_slash v =
     (if slash \<in> set v then Some (length v - length (after_last_slash v)) else None)"
  using dot_star_slash_line [of v "[]"] by simp

lemma dot_star_slash_split:
  assumes "newline \<notin> set v" "slash \<in> set v"
  obtains h where "v = h @ slash # after_last_slash v"
    and "dot_star_slash v = Some (Suc (length h))"
proof -
  from last_slash_split [OF assms(2)] obtain h where h: "v = h @ slash # after_last_slash v" ..
  have "length v = length h + Suc (length (after_last_slash v))"
    by (subst h) simp
  then have "dot_star_slash v = Some (Suc (length h))"
    using assms by (simp add: dot_star_slash_nlfree)
  with h that show thesis by blast
qed

text \<open>
  The scan copies a text in which no position matches; at the first position that
  matches it writes the replacement and goes on after the match.
\<close>

lemma scan_no_match:
  "(\<And>p q. v = p @ q \<Longrightarrow> q \<noteq> [] \<Longrightarrow> match_at pat (u @ p) q = None) \<Longrightarrow>
   re_sub_from pat repl u v = v"
proof (induction v arbitrary: u)
  case Nil
  show ?case by simp
next
  case (Cons c cs)
  have m: "match_at pat u (c # cs) = None"
    using Cons.prems [of "[]" "c # cs"] by simp
  have "re_sub_from pat repl (u @ [c]) cs = cs"
  proof (rule Cons.IH)
    fix p q assume "cs = p @ q" "q \<noteq> []"
    then show "match_at pat ((u @ [c]) @ p) q = None"
      using Cons.prems [of "c # p" q] by simp
  qed
  with m show ?case by simp
qed

lemma scan_first_match:
  "(\<And>p1 p2. p = p1 @ p2 \<Longrightarrow> p2 \<noteq> [] \<Longrightarrow> match_at pat (u @ p1) (p2 @ w) = None) \<Longrightarrow>
   match_at pat (u @ p) w = Some n \<Longrightarrow> w \<noteq> [] \<Longrightarrow>
   re_sub_from pat repl u (p @ w) =
     p @ repl @ re_sub_from pat repl (u @ p @ take n w) (drop n w)"
proof (induction p arbitrary: u)
  case Nil
  then show ?case by (cases w) simp_all
next
  case (Cons c cs)
  have m: "match_at pat u (c # cs @ w) = None"
    using Cons.prems(1) [of "[]" "c # cs"] by simp
  have "re_sub_from pat repl (u @ [c]) (cs @ w) =
      cs @ repl @ re_sub_from pat repl ((u @ [c]) @ cs @ take n w) (drop n w)"
  proof (rule Cons.IH)
    fix p1 p2 assume "cs = p1 @ p2" "p2 \<noteq> []"
    then show "match_at pat ((u @ [c]) @ p1) (p2 @ w) = None"
      using Cons.prems(1) [of "c # p1" p2] by simp
  next
    show "match_at pat ((u @ [c]) @ cs) w = Some n" using Cons.prems(2) by simp
  next
    show "w \<noteq> []" by fact
  qed
  with m show ?case by simp
qed

subsection \<open>One rewrite on one line\<close>

text \<open>
  On a line without newline, a rewrite looks for the first occurrence of its keyword that
  a slash follows. Without one the line stays. With one, the text from the occurrence
  (after the keyword, for a look-behind) up to the last slash gives way to the
  replacement.
\<close>

lemma first_occ_exists:
  assumes "occ kw l a b"
  shows "\<exists>a b. first_occ kw l a b"
proof -
  have "\<exists>x. (case x of (a, b) \<Rightarrow> occ kw l a b)
      \<and> (\<forall>y. (case y of (a, b) \<Rightarrow> occ kw l a b) \<longrightarrow> length (fst x) \<le> length (fst y))"
    by (rule ex_has_least_nat [of "\<lambda>(a, b). occ kw l a b" "(a, b)" "\<lambda>x. length (fst x)"])
       (simp add: assms)
  then show ?thesis by (auto simp: first_occ_def)
qed

lemma dot_star_slash_None: "slash \<notin> set q \<Longrightarrow> dot_star_slash q = None"
  by (auto simp: dot_star_slash_def Let_def dest: set_takeWhileD)

lemma dot_star_slash_Some_slash: "dot_star_slash q = Some n \<Longrightarrow> slash \<in> set q"
  using dot_star_slash_None [of q] by auto

lemma match_at_no_slash: "slash \<notin> set q \<Longrightarrow> match_at pat u q = None"
proof (cases pat)
  case (Lookbehind kw)
  assume "slash \<notin> set q"
  then show ?thesis by (simp add: Lookbehind dot_star_slash_None)
next
  case (Literal kw)
  assume "slash \<notin> set q"
  then have "slash \<notin> set (drop (length kw) q)" by (auto dest: in_set_dropD)
  then show ?thesis by (simp add: Literal dot_star_slash_None)
qed

lemma scan_no_slash: "slash \<notin> set v \<Longrightarrow> re_sub_from pat repl u v = v"
  by (rule scan_no_match) (auto intro: match_at_no_slash)

lemma match_at_occ:
  assumes "match_at pat u q = Some n" and "pat = Lookbehind kw \<or> pat = Literal kw"
  shows "\<exists>a b. occ kw (u @ q) a b"
  using assms(2)
proof
  assume p: "pat = Lookbehind kw"
  with assms(1) have "suffix kw u" "slash \<in> set q"
    by (auto split: if_splits dest: dot_star_slash_Some_slash)
  then obtain a where "u = a @ kw" by (auto simp: suffix_def)
  with \<open>slash \<in> set q\<close> have "occ kw (u @ q) a q" by (simp add: occ_def)
  then show ?thesis by blast
next
  assume p: "pat = Literal kw"
  with assms(1) have "prefix kw q" "slash \<in> set (drop (length kw) q)"
    by (auto split: if_splits dest: dot_star_slash_Some_slash)
  then obtain b where "q = kw @ b" by (auto simp: prefix_def)
  with \<open>slash \<in> set (drop (length kw) q)\<close> have "occ kw (u @ q) u b" by (simp add: occ_def)
  then show ?thesis by blast
qed

lemma line_no_occ:
  assumes "\<And>a b. \<not> occ kw l a b" and "pat = Lookbehind kw \<or> pat = Literal kw"
  shows "re_sub pat repl l = l"
  unfolding re_sub_def
proof (rule scan_no_match)
  fix p q assume "l = p @ q" "q \<noteq> []"
  show "match_at pat ([] @ p) q = None"
  proof (cases "match_at pat ([] @ p) q")
    case None then show ?thesis .
  next
    case (Some n)
    from match_at_occ [OF Some assms(2)] \<open>l = p @ q\<close> assms(1) show ?thesis by simp
  qed
qed

lemma line_first_occ_Lookbehind:
  assumes nl: "newline \<notin> set l" and f: "first_occ kw l a b"
  shows "re_sub (Lookbehind kw) repl l = a @ kw @ repl @ after_last_slash b"
proof -
  from f have l: "l = a @ kw @ b" and sl: "slash \<in> set b" by (auto simp: first_occ_def occ_def)
  from nl l have nlb: "newline \<notin> set b" by simp
  from dot_star_slash_split [OF nlb sl] obtain h
    where h: "b = h @ slash # after_last_slash b"
      and d: "dot_star_slash b = Some (Suc (length h))" by blast
  have tk: "take (Suc (length h)) b = h @ [slash]" by (subst h) simp
  have dr: "drop (Suc (length h)) b = after_last_slash b" by (subst h) simp
  have early: "match_at (Lookbehind kw) ([] @ p1) (p2 @ b) = None"
    if "a @ kw = p1 @ p2" "p2 \<noteq> []" for p1 p2
  proof -
    have "\<not> suffix kw p1"
    proof
      assume "suffix kw p1"
      then obtain a' where a': "p1 = a' @ kw" by (auto simp: suffix_def)
      with that l have "l = a' @ kw @ (p2 @ b)" by simp
      with sl have "occ kw l a' (p2 @ b)" by (simp add: occ_def)
      with f have "length a \<le> length a'" by (auto simp: first_occ_def)
      moreover from that a' have "length (a @ kw) = length (a' @ kw) + length p2" by simp
      ultimately show False using that(2) by simp
    qed
    then show ?thesis by simp
  qed
  have "suffix kw (a @ kw)" by (rule suffixI) simp
  then have here: "match_at (Lookbehind kw) ([] @ a @ kw) b = Some (Suc (length h))"
    by (simp add: d)
  from sl have bne: "b \<noteq> []" by auto
  have "re_sub_from (Lookbehind kw) repl [] ((a @ kw) @ b) =
      (a @ kw) @ repl @ re_sub_from (Lookbehind kw) repl
         ([] @ (a @ kw) @ take (Suc (length h)) b) (drop (Suc (length h)) b)"
    by (rule scan_first_match) (use early here bne in auto)
  also have "\<dots> = (a @ kw) @ repl @ after_last_slash b"
    by (simp add: dr scan_no_slash after_last_slash_notin)
  finally show ?thesis by (simp add: re_sub_def l)
qed

lemma line_first_occ_Literal:
  assumes nl: "newline \<notin> set l" and f: "first_occ kw l a b"
  shows "re_sub (Literal kw) repl l = a @ repl @ after_last_slash b"
proof -
  from f have l: "l = a @ kw @ b" and sl: "slash \<in> set b" by (auto simp: first_occ_def occ_def)
  from nl l have nlb: "newline \<notin> set b" by simp
  from dot_star_slash_split [OF nlb sl] obtain h
    where h: "b = h @ slash # after_last_slash b"
      and d: "dot_star_slash b = Some (Suc (length h))" by blast
  let ?n = "length kw + Suc (length h)"
  have dr: "drop ?n (kw @ b) = after_last_slash b" by (subst h) simp
  have early: "match_at (Literal kw) ([] @ p1) (p2 @ kw @ b) = None"
    if "a = p1 @ p2" "p2 \<noteq> []" for p1 p2
  proof (cases "match_at (Literal kw) ([] @ p1) (p2 @ kw @ b)")
    case None then show ?thesis .
  next
    case (Some n)
    then have pre: "prefix kw (p2 @ kw @ b)"
      and dsl: "slash \<in> set (drop (length kw) (p2 @ kw @ b))"
      by (auto split: if_splits dest: dot_star_slash_Some_slash)
    from pre obtain b' where eq: "p2 @ kw @ b = kw @ b'"
      by (auto simp: prefix_def)
    have "drop (length kw) (p2 @ kw @ b) = b'" by (subst eq) simp
    with dsl eq have b': "p2 @ kw @ b = kw @ b'" "slash \<in> set b'" by simp_all
    with that l have "l = p1 @ kw @ b'" by simp
    with b' have "occ kw l p1 b'" by (simp add: occ_def)
    with f have "length a \<le> length p1" by (auto simp: first_occ_def)
    with that show ?thesis by simp
  qed
  have here: "match_at (Literal kw) ([] @ a) (kw @ b) = Some ?n"
    by (simp add: d)
  from sl have bne: "kw @ b \<noteq> []" by auto
  have "re_sub_from (Literal kw) repl [] (a @ kw @ b) =
      a @ repl @ re_sub_from (Literal kw) repl ([] @ a @ take ?n (kw @ b)) (drop ?n (kw @ b))"
    by (rule scan_first_match) (use early here bne in auto)
  also have "\<dots> = a @ repl @ after_last_slash b"
    by (simp only: dr scan_no_slash [OF after_last_slash_notin])
  finally show ?thesis by (simp add: re_sub_def l)
qed

lemma line_result:
  assumes "newline \<notin> set l"
  shows "((\<forall>a b. \<not> occ (keyword pat) l a b) \<and> re_sub pat (std_repl pat) l = l)
       \<or> (\<exists>a b. first_occ (keyword pat) l a b
              \<and> re_sub pat (std_repl pat) l = a @ kept pat @ after_last_slash b)"
proof (cases "\<exists>a b. occ (keyword pat) l a b")
  case False
  then have "re_sub pat (std_repl pat) l = l"
    by (intro line_no_occ [of "keyword pat"]) (cases pat; auto)+
  with False show ?thesis by blast
next
  case True
  then obtain a b where f: "first_occ (keyword pat) l a b"
    using first_occ_exists by blast
  have "re_sub pat (std_repl pat) l = a @ kept pat @ after_last_slash b"
  proof (cases pat)
    case (Lookbehind kw)
    with line_first_occ_Lookbehind [OF assms, of kw a b "[slash]"] f show ?thesis by simp
  next
    case (Literal kw)
    with line_first_occ_Literal [OF assms, of kw a b "[]"] f show ?thesis by simp
  qed
  with f show ?thesis by blast
qed

subsection \<open>A rewrite keeps the lines fixed for the other rewrites\<close>

text \<open>
  After a rewrite the line holds no slash behind the place of the replacement. An
  occurrence of any keyword that a slash follows in the new line lies before that place,
  so it was an occurrence in the old line already.
\<close>

lemma occ_after_Lookbehind:
  assumes "slash \<notin> set t" and "occ kwr (a @ kwq @ slash # t) a' b'"
  shows "\<exists>c. a @ kwq = a' @ kwr @ c \<and> b' = c @ slash # t"
proof -
  from assms(2) have eq: "(a @ kwq) @ slash # t = (a' @ kwr) @ b'" and sl: "slash \<in> set b'"
    by (simp_all add: occ_def)
  from eq have "\<exists>us. a @ kwq = (a' @ kwr) @ us \<and> us @ slash # t = b'
      \<or> (a @ kwq) @ us = a' @ kwr \<and> slash # t = us @ b'"
    by (rule iffD1 [OF append_eq_append_conv2])
  then consider us where "a @ kwq = (a' @ kwr) @ us" "us @ slash # t = b'"
    | us where "(a @ kwq) @ us = a' @ kwr" "slash # t = us @ b'"
    by blast
  then show ?thesis
  proof cases
    case 1
    then show ?thesis by auto
  next
    case 2
    show ?thesis
    proof (cases us)
      case Nil
      with 2 show ?thesis by auto
    next
      case (Cons x us')
      with 2(2) have "t = us' @ b'" by simp
      with sl assms(1) show ?thesis by simp
    qed
  qed
qed

lemma occ_after_Literal:
  assumes "slash \<notin> set t" and "occ kwr (a @ t) a' b'"
  shows "\<exists>c. a = a' @ kwr @ c \<and> slash \<in> set c \<and> b' = c @ t"
proof -
  from assms(2) have eq: "a @ t = (a' @ kwr) @ b'" and sl: "slash \<in> set b'"
    by (simp_all add: occ_def)
  from eq have "\<exists>us. a = (a' @ kwr) @ us \<and> us @ t = b'
      \<or> a @ us = a' @ kwr \<and> t = us @ b'"
    by (rule iffD1 [OF append_eq_append_conv2])
  then consider us where "a = (a' @ kwr) @ us" "us @ t = b'"
    | us where "a @ us = a' @ kwr" "t = us @ b'"
    by blast
  then show ?thesis
  proof cases
    case 1
    with sl assms(1) have "slash \<in> set us" by auto
    with 1 show ?thesis by auto
  next
    case 2
    with sl assms(1) show ?thesis by simp
  qed
qed

lemma fixed_line_after_Lookbehind:
  assumes f: "first_occ kwq l a b"
    and r: "fixed_line r l \<or> r = Lookbehind kwq"
  shows "fixed_line r (a @ kwq @ slash # after_last_slash b)"
proof -
  let ?t = "after_last_slash b"
  from f have l: "l = a @ kwq @ b" and sl: "slash \<in> set b" by (auto simp: first_occ_def occ_def)
  have t: "slash \<notin> set ?t" by (rule after_last_slash_notin)
  have origin: "\<exists>c. a @ kwq = a' @ kw @ c \<and> b' = c @ slash # ?t \<and> occ kw l a' (c @ b)"
    if o: "occ kw (a @ kwq @ slash # ?t) a' b'" for kw a' b'
  proof -
    from occ_after_Lookbehind [OF t o] obtain c
      where c: "a @ kwq = a' @ kw @ c" "b' = c @ slash # ?t" by blast
    with l have "l = a' @ kw @ (c @ b)" by simp
    with sl have "occ kw l a' (c @ b)" by (simp add: occ_def)
    with c show ?thesis by blast
  qed
  show ?thesis
  proof (cases r)
    case (Lookbehind kw)
    have "\<exists>t'. b' = slash # t' \<and> slash \<notin> set t'"
      if o: "occ kw (a @ kwq @ slash # ?t) a' b'" for a' b'
    proof -
      from origin [OF o] obtain c
        where c: "a @ kwq = a' @ kw @ c" "b' = c @ slash # ?t" "occ kw l a' (c @ b)" by blast
      have "c = []"
      proof (cases "kw = kwq")
        case True
        with c(3) f have "length a \<le> length a'" by (auto simp: first_occ_def)
        moreover from c(1) have "length (a @ kwq) = length (a' @ kw @ c)" by (rule arg_cong)
        ultimately show ?thesis using True by simp
      next
        case False
        with r Lookbehind c(3) obtain t0 where t0: "c @ b = slash # t0" "slash \<notin> set t0"
          by auto
        show ?thesis
        proof (cases c)
          case Nil then show ?thesis .
        next
          case (Cons x c')
          with t0 have "t0 = c' @ b" by simp
          with t0(2) sl show ?thesis by simp
        qed
      qed
      with c(2) t show ?thesis by simp
    qed
    with Lookbehind show ?thesis by simp
  next
    case (Literal kw)
    with r have no: "\<And>a b. \<not> occ kw l a b" by auto
    have "\<not> occ kw (a @ kwq @ slash # ?t) a' b'" for a' b'
      using origin [of kw a' b'] no by blast
    with Literal show ?thesis by simp
  qed
qed

lemma fixed_line_after_Literal:
  assumes f: "first_occ kwq l a b"
    and r: "fixed_line r l \<or> r = Literal kwq"
  shows "fixed_line r (a @ after_last_slash b)"
proof -
  let ?t = "after_last_slash b"
  from f have l: "l = a @ kwq @ b" and sl: "slash \<in> set b" by (auto simp: first_occ_def occ_def)
  have t: "slash \<notin> set ?t" by (rule after_last_slash_notin)
  have origin: "\<exists>c. a = a' @ kw @ c \<and> slash \<in> set c \<and> occ kw l a' (c @ kwq @ b)"
    if o: "occ kw (a @ ?t) a' b'" for kw a' b'
  proof -
    from occ_after_Literal [OF t o] obtain c
      where c: "a = a' @ kw @ c" "slash \<in> set c" "b' = c @ ?t" by blast
    with l have "l = a' @ kw @ (c @ kwq @ b)" by simp
    with sl have "occ kw l a' (c @ kwq @ b)" by (simp add: occ_def)
    with c show ?thesis by blast
  qed
  show ?thesis
  proof (cases r)
    case (Lookbehind kw)
    have "\<not> occ kw (a @ ?t) a' b'" for a' b'
    proof
      assume "occ kw (a @ ?t) a' b'"
      from origin [OF this] obtain c
        where c: "a = a' @ kw @ c" "slash \<in> set c" "occ kw l a' (c @ kwq @ b)" by blast
      with r Lookbehind obtain t0 where t0: "c @ kwq @ b = slash # t0" "slash \<notin> set t0"
        by auto
      from c(2) obtain x c' where "c = x # c'" by (cases c) auto
      with t0 have "t0 = c' @ kwq @ b" by simp
      with t0(2) sl show False by simp
    qed
    with Lookbehind show ?thesis by simp
  next
    case (Literal kw)
    have "\<not> occ kw (a @ ?t) a' b'" for a' b'
    proof
      assume "occ kw (a @ ?t) a' b'"
      from origin [OF this] obtain c
        where c: "a = a' @ kw @ c" "slash \<in> set c" "occ kw l a' (c @ kwq @ b)" by blast
      show False
      proof (cases "kw = kwq")
        case True
        with c(3) f have "length a \<le> length a'" by (auto simp: first_occ_def)
        moreover from c(1) have "length a = length a' + length kw + length c" by simp
        moreover from c(2) have "c \<noteq> []" by auto
        ultimately show False by simp
      next
        case False
        with r Literal c(3) show False by auto
      qed
    qed
    with Literal show ?thesis by simp
  qed
qed

text \<open>
  A rewrite leaves a line that is fixed for it as it is; it makes the line fixed for its
  own pattern and keeps it fixed for every pattern for which it was. So after the whole
  list every rewrite of the list finds the line fixed.
\<close>

lemma fixed_line_no_occ: "(\<forall>a b. \<not> occ (keyword pat) l a b) \<Longrightarrow> fixed_line pat l"
  by (cases pat) auto

lemma slash_not_newline: "slash \<noteq> newline"
  by (simp add: slash_def newline_def)

lemma set_after_last_slash: "set (after_last_slash b) \<subseteq> set b"
  by (auto simp: after_last_slash_def dest: set_takeWhileD)

lemma fixed_line_id:
  assumes "newline \<notin> set l" and "fixed_line pat l"
  shows "re_sub pat (std_repl pat) l = l"
  using line_result [OF assms(1), of pat]
proof
  assume "(\<forall>a b. \<not> occ (keyword pat) l a b) \<and> re_sub pat (std_repl pat) l = l"
  then show ?thesis by simp
next
  assume "\<exists>a b. first_occ (keyword pat) l a b
      \<and> re_sub pat (std_repl pat) l = a @ kept pat @ after_last_slash b"
  then obtain a b where f: "first_occ (keyword pat) l a b"
    and res: "re_sub pat (std_repl pat) l = a @ kept pat @ after_last_slash b" by blast
  from f have o: "occ (keyword pat) l a b" by (simp add: first_occ_def)
  show ?thesis
  proof (cases pat)
    case (Lookbehind kw)
    with assms(2) o obtain t where t: "b = slash # t" "slash \<notin> set t" by auto
    from after_last_slash_append [OF t(2), of "[]"] t have "after_last_slash b = t" by simp
    with res Lookbehind t o show ?thesis by (simp add: occ_def)
  next
    case (Literal kw)
    with assms(2) o show ?thesis by simp
  qed
qed

lemma rule_step:
  assumes "newline \<notin> set l" and "newline \<notin> set (keyword pat)"
  shows "newline \<notin> set (re_sub pat (std_repl pat) l)
       \<and> (\<forall>r. fixed_line r l \<or> r = pat \<longrightarrow> fixed_line r (re_sub pat (std_repl pat) l))"
  using line_result [OF assms(1), of pat]
proof
  assume a: "(\<forall>a b. \<not> occ (keyword pat) l a b) \<and> re_sub pat (std_repl pat) l = l"
  then have "fixed_line pat l" by (simp add: fixed_line_no_occ)
  with a assms(1) show ?thesis by auto
next
  assume "\<exists>a b. first_occ (keyword pat) l a b
      \<and> re_sub pat (std_repl pat) l = a @ kept pat @ after_last_slash b"
  then obtain a b where f: "first_occ (keyword pat) l a b"
    and res: "re_sub pat (std_repl pat) l = a @ kept pat @ after_last_slash b" by blast
  from f have l: "l = a @ keyword pat @ b" by (simp add: first_occ_def occ_def)
  from l assms(1) have "newline \<notin> set a" "newline \<notin> set b" by simp_all
  with set_after_last_slash [of b] have nl: "newline \<notin> set a" "newline \<notin> set (after_last_slash b)"
    by auto
  show ?thesis
  proof (cases pat)
    case (Lookbehind kw)
    with res have r: "re_sub pat (std_repl pat) l = a @ kw @ slash # after_last_slash b" by simp
    have "newline \<notin> set (a @ kw @ slash # after_last_slash b)"
      using nl assms(2) Lookbehind slash_not_newline by auto
    moreover have "fixed_line r (a @ kw @ slash # after_last_slash b)"
      if "fixed_line r l \<or> r = pat" for r
      using fixed_line_after_Lookbehind [of kw l a b r] f that Lookbehind by auto
    ultimately show ?thesis unfolding r by blast
  next
    case (Literal kw)
    with res have r: "re_sub pat (std_repl pat) l = a @ after_last_slash b" by simp
    have "newline \<notin> set (a @ after_last_slash b)" using nl by simp
    moreover have "fixed_line r (a @ after_last_slash b)"
      if "fixed_line r l \<or> r = pat" for r
      using fixed_line_after_Literal [of kw l a b r] f that Literal by auto
    ultimately show ?thesis unfolding r by blast
  qed
qed

lemma substitute_with_fixes:
  assumes "\<forall>r \<in> set rs. valid_rule r" and "newline \<notin> set l"
  shows "newline \<notin> set (substitute_with rs l)
       \<and> (\<forall>q. fixed_line q l \<or> q \<in> fst ` set rs \<longrightarrow> fixed_line q (substitute_with rs l))"
  using assms
proof (induction rs arbitrary: l)
  case Nil
  then show ?case by simp
next
  case (Cons r rs)
  obtain pat repl where r: "r = (pat, repl)" by (cases r)
  with Cons.prems have v: "repl = std_repl pat" "newline \<notin> set (keyword pat)"
    by (simp_all add: valid_rule_def)
  let ?l1 = "re_sub pat (std_repl pat) l"
  from rule_step [OF Cons.prems(2) v(2)]
  have s1: "newline \<notin> set ?l1"
    and s2: "\<And>q. fixed_line q l \<or> q = pat \<Longrightarrow> fixed_line q ?l1" by blast+
  from Cons.prems have "\<forall>r \<in> set rs. valid_rule r" by simp
  from Cons.IH [OF this s1]
  have i1: "newline \<notin> set (substitute_with rs ?l1)"
    and i2: "\<And>q. fixed_line q ?l1 \<or> q \<in> fst ` set rs \<Longrightarrow> fixed_line q (substitute_with rs ?l1)"
    by blast+
  have "fixed_line q (substitute_with rs ?l1)"
    if "fixed_line q l \<or> q \<in> fst ` set (r # rs)" for q
  proof -
    from that r have "fixed_line q l \<or> q = pat \<or> q \<in> fst ` set rs" by auto
    then show ?thesis using s2 i2 by blast
  qed
  with i1 show ?case by (simp add: r v(1))
qed

lemma substitute_with_id:
  assumes "\<forall>r \<in> set rs. valid_rule r \<and> fixed_line (fst r) l" and "newline \<notin> set l"
  shows "substitute_with rs l = l"
  using assms
proof (induction rs)
  case Nil
  then show ?case by simp
next
  case (Cons r rs)
  obtain pat repl where r: "r = (pat, repl)" by (cases r)
  with Cons.prems have "repl = std_repl pat" "fixed_line pat l"
    by (simp_all add: valid_rule_def)
  with fixed_line_id [OF Cons.prems(2), of pat] have "re_sub pat repl l = l" by simp
  with Cons r show ?case by simp
qed

lemma line_idempotent:
  assumes "\<forall>r \<in> set rs. valid_rule r" and "newline \<notin> set l"
  shows "substitute_with rs (substitute_with rs l) = substitute_with rs l"
proof -
  from substitute_with_fixes [OF assms]
  have nl: "newline \<notin> set (substitute_with rs l)"
    and fx: "\<And>q. q \<in> fst ` set rs \<Longrightarrow> fixed_line q (substitute_with rs l)" by blast+
  show ?thesis
    by (rule substitute_with_id) (use assms(1) nl fx in auto)
qed

subsection \<open>A rewrite works line by line\<close>

text \<open>
  No keyword holds a newline and \<open>.\<close> matches none: whether a position of a line
  matches, and how far, depends on that line only.
\<close>

lemma suffix_line_start:
  assumes "newline \<notin> set kw" and "prev = [] \<or> last prev = newline"
  shows "suffix kw (prev @ u) \<longleftrightarrow> suffix kw u"
proof
  assume "suffix kw u"
  then show "suffix kw (prev @ u)" by (simp add: suffix_appendI)
next
  assume "suffix kw (prev @ u)"
  then have "suffix kw u \<or> (\<exists>xs'. kw = xs' @ u \<and> suffix xs' prev)"
    by (simp add: suffix_append)
  then show "suffix kw u"
  proof
    assume "suffix kw u" then show ?thesis .
  next
    assume "\<exists>xs'. kw = xs' @ u \<and> suffix xs' prev"
    then obtain xs' where x: "kw = xs' @ u" "suffix xs' prev" by blast
    show ?thesis
    proof (cases xs')
      case Nil
      with x show ?thesis by simp
    next
      case (Cons y ys)
      with x(2) obtain zs where "prev = zs @ xs'" by (auto simp: suffix_def)
      with Cons have "prev \<noteq> []" "last prev = last xs'" by simp_all
      with assms(2) have "last xs' = newline" by simp
      with Cons have "newline \<in> set xs'" by (metis last_in_set list.distinct(1))
      with x(1) assms(1) show ?thesis by simp
    qed
  qed
qed

lemma prefix_line_end:
  assumes "newline \<notin> set kw" and "rest = [] \<or> hd rest = newline"
  shows "prefix kw (v @ rest) \<longleftrightarrow> prefix kw v"
proof
  assume "prefix kw v"
  then show "prefix kw (v @ rest)" by (simp add: prefix_prefix)
next
  assume "prefix kw (v @ rest)"
  then have "prefix kw v \<or> (\<exists>us. kw = v @ us \<and> prefix us rest)"
    by (simp add: prefix_append)
  then show "prefix kw v"
  proof
    assume "prefix kw v" then show ?thesis .
  next
    assume "\<exists>us. kw = v @ us \<and> prefix us rest"
    then obtain us where x: "kw = v @ us" "prefix us rest" by blast
    show ?thesis
    proof (cases us)
      case Nil
      with x show ?thesis by simp
    next
      case (Cons y ys)
      with x(2) obtain zs where "rest = (y # ys) @ zs" by (auto simp: prefix_def)
      then have "rest \<noteq> []" "hd rest = y" by simp_all
      with assms(2) have "y = newline" by simp
      with Cons x(1) assms(1) show ?thesis by simp
    qed
  qed
qed

lemma dot_star_slash_line_eq:
  "newline \<notin> set v \<Longrightarrow> rest = [] \<or> hd rest = newline \<Longrightarrow>
   dot_star_slash (v @ rest) = dot_star_slash v"
  by (simp add: dot_star_slash_line dot_star_slash_nlfree)

lemma match_at_line:
  assumes "newline \<notin> set (keyword pat)" and "newline \<notin> set v"
    and "prev = [] \<or> last prev = newline" and "rest = [] \<or> hd rest = newline"
  shows "match_at pat (prev @ u) (v @ rest) = match_at pat u v"
proof (cases pat)
  case (Lookbehind kw)
  with assms suffix_line_start [of kw prev u] dot_star_slash_line_eq [of v rest]
  show ?thesis by simp
next
  case (Literal kw)
  with assms(1) have kw: "newline \<notin> set kw" by simp
  show ?thesis
  proof (cases "prefix kw v")
    case True
    then have len: "length kw \<le> length v" by (rule prefix_length_le)
    from assms(2) have "newline \<notin> set (drop (length kw) v)" by (auto dest: in_set_dropD)
    from dot_star_slash_line_eq [OF this assms(4)] len True
      prefix_line_end [OF kw assms(4), of v] Literal
    show ?thesis by simp
  next
    case False
    with prefix_line_end [OF kw assms(4), of v] Literal show ?thesis by simp
  qed
qed

lemma dot_star_slash_le: "dot_star_slash s = Some n \<Longrightarrow> n \<le> length s"
proof -
  assume "dot_star_slash s = Some n"
  then have "n \<le> length (takeWhile (\<lambda>c. c \<noteq> newline) s)"
    by (auto simp: dot_star_slash_def Let_def split: if_splits)
  also have "\<dots> \<le> length s" by (rule length_takeWhile_le)
  finally show ?thesis .
qed

lemma match_at_le: "match_at pat u v = Some n \<Longrightarrow> n \<le> length v"
proof (cases pat)
  case (Lookbehind kw)
  assume "match_at pat u v = Some n"
  with Lookbehind show ?thesis by (auto split: if_splits dest: dot_star_slash_le)
next
  case (Literal kw)
  assume "match_at pat u v = Some n"
  with Literal obtain k where k: "prefix kw v" "dot_star_slash (drop (length kw) v) = Some k"
    "n = length kw + k" by (auto split: if_splits)
  from dot_star_slash_le [OF k(2)] prefix_length_le [OF k(1)] k(3) show ?thesis by simp
qed

lemma match_at_newline: "newline \<notin> set (keyword pat) \<Longrightarrow> match_at pat u (newline # cs) = None"
proof (cases pat)
  case (Lookbehind kw)
  then show ?thesis by (simp add: dot_star_slash_def)
next
  case (Literal kw)
  assume "newline \<notin> set (keyword pat)"
  with Literal show ?thesis
    by (cases kw) (auto simp: dot_star_slash_def)
qed

lemma re_sub_from_Some:
  assumes "match_at pat seen s = Some n"
  shows "re_sub_from pat repl seen s =
    repl @ re_sub_from pat repl (seen @ take n s) (drop n s)"
proof (cases s)
  case Nil
  with assms match_at_le [OF assms] match_at_pos [OF assms] show ?thesis by simp
next
  case (Cons c cs)
  with assms show ?thesis by simp
qed

lemma re_sub_from_line:
  assumes kw: "newline \<notin> set (keyword pat)"
    and prev: "prev = [] \<or> last prev = newline"
    and rest: "rest = [] \<or> hd rest = newline"
  shows "newline \<notin> set v \<Longrightarrow>
    re_sub_from pat repl (prev @ u) (v @ rest) =
      re_sub_from pat repl u v @ re_sub_from pat repl (prev @ u @ v) rest"
proof (induction "length v" arbitrary: u v rule: less_induct)
  case less
  show ?case
  proof (cases v)
    case Nil
    then show ?thesis by simp
  next
    case (Cons c cs)
    have m: "match_at pat (prev @ u) (v @ rest) = match_at pat u v"
      using kw less.prems prev rest by (rule match_at_line)
    show ?thesis
    proof (cases "match_at pat u v")
      case None
      have "re_sub_from pat repl (prev @ (u @ [c])) (cs @ rest) =
          re_sub_from pat repl (u @ [c]) cs @ re_sub_from pat repl (prev @ (u @ [c]) @ cs) rest"
        using less.prems Cons by (intro less.hyps) simp_all
      with None m Cons show ?thesis by simp
    next
      case (Some n)
      from match_at_pos [OF Some] match_at_le [OF Some] have n: "0 < n" "n \<le> length v" by simp_all
      have "re_sub_from pat repl (prev @ (u @ take n v)) (drop n v @ rest) =
          re_sub_from pat repl (u @ take n v) (drop n v)
            @ re_sub_from pat repl (prev @ (u @ take n v) @ drop n v) rest"
        using less.prems n Cons by (intro less.hyps) (auto dest: in_set_dropD)
      moreover have "re_sub_from pat repl (prev @ u) (v @ rest) =
          repl @ re_sub_from pat repl (prev @ u @ take n v) (drop n v @ rest)"
        using re_sub_from_Some [of pat "prev @ u" "v @ rest" n repl] m Some n by simp
      moreover have "re_sub_from pat repl u v =
          repl @ re_sub_from pat repl (u @ take n v) (drop n v)"
        using Some by (rule re_sub_from_Some)
      ultimately show ?thesis by simp
    qed
  qed
qed

lemma re_sub_from_map_lines:
  assumes kw: "newline \<notin> set (keyword pat)"
  shows "prev = [] \<or> last prev = newline \<Longrightarrow> newline \<notin> set cur \<Longrightarrow>
    re_sub_from pat repl prev (cur @ s) = map_lines_from (re_sub pat repl) cur s"
proof (induction s arbitrary: prev cur)
  case Nil
  from re_sub_from_line [OF kw Nil(1), of "[]" cur repl "[]"] Nil(2)
  show ?case by (simp add: re_sub_def)
next
  case (Cons c cs)
  show ?case
  proof (cases "c = newline")
    case True
    have "re_sub_from pat repl (prev @ []) (cur @ newline # cs) =
        re_sub_from pat repl [] cur @ re_sub_from pat repl (prev @ [] @ cur) (newline # cs)"
      using Cons.prems by (intro re_sub_from_line [OF kw]) simp_all
    also have "re_sub_from pat repl (prev @ [] @ cur) (newline # cs) =
        newline # re_sub_from pat repl ((prev @ cur @ [newline]) @ []) cs"
      by (simp add: match_at_newline [OF kw])
    also have "re_sub_from pat repl ((prev @ cur @ [newline]) @ []) cs =
        map_lines_from (re_sub pat repl) [] cs"
      using Cons.IH [of "prev @ cur @ [newline]" "[]"] by simp
    finally have "re_sub_from pat repl prev (cur @ newline # cs) =
        re_sub pat repl cur @ newline # map_lines_from (re_sub pat repl) [] cs"
      by (simp add: re_sub_def [symmetric])
    with True show ?thesis by simp
  next
    case False
    with Cons.IH [of prev "cur @ [c]"] Cons.prems show ?thesis by simp
  qed
qed

lemma re_sub_map_lines:
  "newline \<notin> set (keyword pat) \<Longrightarrow> re_sub pat repl s = map_lines_from (re_sub pat repl) [] s"
  using re_sub_from_map_lines [of pat "[]" "[]" repl s] by (simp add: re_sub_def)

lemma map_lines_from_line:
  "newline \<notin> set b \<Longrightarrow> map_lines_from g a b = g (a @ b)"
  by (induction b arbitrary: a) auto

lemma map_lines_from_append:
  "newline \<notin> set b \<Longrightarrow>
   map_lines_from g a (b @ newline # r) = g (a @ b) @ newline # map_lines_from g [] r"
  by (induction b arbitrary: a) auto

lemma map_lines_from_id: "map_lines_from (\<lambda>l. l) cur s = cur @ s"
  by (induction s arbitrary: cur) auto

lemma map_lines_from_cong:
  "(\<And>l. newline \<notin> set l \<Longrightarrow> f l = g l) \<Longrightarrow> newline \<notin> set cur \<Longrightarrow>
   map_lines_from f cur s = map_lines_from g cur s"
  by (induction s arbitrary: cur) auto

lemma map_lines_from_comp:
  assumes "\<And>l. newline \<notin> set l \<Longrightarrow> newline \<notin> set (f l)"
  shows "newline \<notin> set cur \<Longrightarrow>
    map_lines_from g [] (map_lines_from f cur s) = map_lines_from (\<lambda>l. g (f l)) cur s"
proof (induction s arbitrary: cur)
  case Nil
  with assms [of cur] show ?case by (simp add: map_lines_from_line)
next
  case (Cons c cs)
  show ?case
  proof (cases "c = newline")
    case True
    from assms [OF Cons.prems] have "newline \<notin> set (f cur)" .
    from map_lines_from_append [OF this, of g "[]"] Cons.IH [of "[]"] True
    show ?thesis by simp
  next
    case False
    with Cons.IH [of "cur @ [c]"] Cons.prems show ?thesis by simp
  qed
qed

lemma substitute_with_map_lines:
  assumes "\<forall>r \<in> set rs. valid_rule r"
  shows "substitute_with rs s = map_lines_from (substitute_with rs) [] s"
  using assms
proof (induction rs arbitrary: s)
  case Nil
  have "substitute_with [] = (\<lambda>l. l)" by (rule ext) simp
  then show ?case by (simp add: map_lines_from_id)
next
  case (Cons r rs)
  obtain pat repl where r: "r = (pat, repl)" by (cases r)
  with Cons.prems have v: "repl = std_repl pat" "newline \<notin> set (keyword pat)"
    by (simp_all add: valid_rule_def)
  from Cons.prems have rs: "\<forall>r \<in> set rs. valid_rule r" by simp
  have keep: "newline \<notin> set (re_sub pat repl l)" if "newline \<notin> set l" for l
    using rule_step [OF that v(2)] v(1) by simp
  have "substitute_with (r # rs) s = substitute_with rs (re_sub pat repl s)"
    by (simp add: r)
  also have "\<dots> = map_lines_from (substitute_with rs) [] (re_sub pat repl s)"
    by (rule Cons.IH [OF rs])
  also have "\<dots> = map_lines_from (substitute_with rs) []
      (map_lines_from (re_sub pat repl) [] s)"
    using re_sub_map_lines [OF v(2), of repl s] by simp
  also have "\<dots> = map_lines_from (\<lambda>l. substitute_with rs (re_sub pat repl l)) [] s"
    by (rule map_lines_from_comp) (use keep in auto)
  also have "(\<lambda>l. substitute_with rs (re_sub pat repl l)) = substitute_with (r # rs)"
    by (rule ext) (simp add: r)
  finally show ?case .
qed

lemma substitute_with_idempotent:
  assumes "\<forall>r \<in> set rs. valid_rule r"
  shows "substitute_with rs (substitute_with rs s) = substitute_with rs s"
proof -
  let ?S = "substitute_with rs"
  have keep: "newline \<notin> set (?S l)" if "newline \<notin> set l" for l
    using substitute_with_fixes [OF assms that] by simp
  have "?S (?S s) = map_lines_from ?S [] (?S s)"
    by (rule substitute_with_map_lines [OF assms])
  also have "\<dots> = map_lines_from ?S [] (map_lines_from ?S [] s)"
    using substitute_with_map_lines [OF assms, of s] by simp
  also have "\<dots> = map_lines_from (\<lambda>l. ?S (?S l)) [] s"
    by (rule map_lines_from_comp) (use keep in auto)
  also have "\<dots> = map_lines_from ?S [] s"
    by (rule map_lines_from_cong) (use line_idempotent [OF assms] in auto)
  also have "\<dots> = ?S s"
    using substitute_with_map_lines [OF assms, of s] by simp
  finally show ?thesis .
qed

lemma regexp_substitutions_valid: "\<forall>r \<in> set regexp_substitutions. valid_rule r"
  by (simp add: regexp_substitutions_def valid_rule_def newline_def slash_def)

text \<open>
  C8. For every output path string, applying the nine substitutions of
  \<open>regexp_substitutions\<close> in the order of the list, and then applying them again,
  gives the same path as applying them once. The result is a function of the path: the
  same path always gives the same result.
\<close>

theorem substitute_idempotent: "substitute (substitute pathstr) = substitute pathstr"
  unfolding substitute_def
  by (rule substitute_with_idempotent [OF regexp_substitutions_valid])

theorem substitute_idempotent_witness:
  "substitute ''/out/group_analysis_results_p/_grp_model_m/alff/rendered/_cluster0/_slicer1/zstat1_overlay.png''
     = ''/out/group_analysis_results_p/_grp_model_m/alff/rendered/zstat1_overlay.png''
 \<and> substitute ''/out/group_analysis_results_p/_grp_model_m/alff/rendered/zstat1_overlay.png''
     = ''/out/group_analysis_results_p/_grp_model_m/alff/rendered/zstat1_overlay.png''"
proof -
  let ?p = "''/out/group_analysis_results_p/_grp_model_m/alff/rendered/_cluster0/_slicer1/zstat1_overlay.png''"
  let ?q = "''/out/group_analysis_results_p/_grp_model_m/alff/rendered/zstat1_overlay.png''"
  have once: "substitute ?p = ?q"
    by code_simp
  have "substitute (substitute ?p) = substitute ?p"
    by (rule substitute_idempotent)
  with once show ?thesis by simp
qed

end
